theory Spec2Isabelle
  imports Complex_Main "HOL-Library.Word" "HOL-Library.Log_Nat"
begin

unbundle bit_operations_syntax

section \<open>RangeRiteFastSample: burst capture from an ADS868x/ADS869x converter\<close>

text \<open>
  A shallow embedding of \<^verbatim>\<open>RangeRiteFastSample.ino\<close>. The sketch talks to three
  pieces of hardware (the SPI bus, the RVS input pin and the microsecond clock) and keeps
  two globals (\<^verbatim>\<open>vRange\<close> and the \<^verbatim>\<open>samples\<close> buffer). All of that is one
  record that every function takes and returns. What the hardware will answer is not
  known to the program, so it is part of the record as three sequences, one per kind of
  read, each with a counter of how many answers have been consumed. Every effect the
  sketch performs is appended to a trace, oldest event first.
\<close>

type_synonym u8 = "8 word"
type_synonym u16 = "16 word"
type_synonym u32 = "32 word"

subsection \<open>Build-time options\<close>

definition ADSX_BITS :: nat where
  "ADSX_BITS = 18"

definition SAMPLE_COUNT :: nat where
  "SAMPLE_COUNT = 256"

definition PIN_CS :: nat where
  "PIN_CS = 10"

definition PIN_RVS :: nat where
  "PIN_RVS = 4"

definition HIGH :: bool where
  "HIGH = True"

definition LOW :: bool where
  "LOW = False"

definition ADSX_REG_RANGE_SEL :: u8 where
  "ADSX_REG_RANGE_SEL = 0x14"

definition ADSX_INTREF_ENABLE :: u16 where
  "ADSX_INTREF_ENABLE = 0x0000"

definition ADSX_RANGE_BIPOLAR_3X :: u16 where
  "ADSX_RANGE_BIPOLAR_3X = 0x0"

definition ADSX_RANGE_BIPOLAR_2P5X :: u16 where
  "ADSX_RANGE_BIPOLAR_2P5X = 0x1"

definition ADSX_RANGE_BIPOLAR_1P5X :: u16 where
  "ADSX_RANGE_BIPOLAR_1P5X = 0x2"

definition ADSX_RANGE_BIPOLAR_1P25X :: u16 where
  "ADSX_RANGE_BIPOLAR_1P25X = 0x3"

definition ADSX_RANGE_BIPOLAR_0P625X :: u16 where
  "ADSX_RANGE_BIPOLAR_0P625X = 0x4"

definition ADSX_RANGE_UNIPOLAR_3X :: u16 where
  "ADSX_RANGE_UNIPOLAR_3X = 0x8"

definition ADSX_RANGE_UNIPOLAR_2P5X :: u16 where
  "ADSX_RANGE_UNIPOLAR_2P5X = 0x9"

definition ADSX_RANGE_UNIPOLAR_1P5X :: u16 where
  "ADSX_RANGE_UNIPOLAR_1P5X = 0xA"

definition ADSX_RANGE_UNIPOLAR_1P25X :: u16 where
  "ADSX_RANGE_UNIPOLAR_1P25X = 0xB"

text \<open>The \<^verbatim>\<open>#if ADSX_BITS == 18 ... #else ... #endif\<close> block.\<close>

definition ADSX_CODE_SHIFT :: nat where
  "ADSX_CODE_SHIFT = (if ADSX_BITS = 18 then 14 else 16)"

definition ADSX_CODE_MASK :: u32 where
  "ADSX_CODE_MASK = (if ADSX_BITS = 18 then 0x3FFFF else 0xFFFF)"

subsection \<open>Hardware and globals\<close>

text \<open>
  An event is one call of an Arduino primitive together with what it returned.
  \<open>SpiTransfer b r\<close> is \<^verbatim>\<open>SPI.transfer(b)\<close> returning \<open>r\<close>.
\<close>

datatype event =
    DigitalWrite nat bool
  | DigitalRead nat bool
  | SpiBeginTransaction
  | SpiTransfer u8 u8
  | SpiEndTransaction
  | Micros u32

text \<open>
  \<open>miso\<close>, \<open>pin_level\<close> and \<open>clock\<close> are the answers of the hardware: the byte
  the device shifts out during the n-th \<^verbatim>\<open>SPI.transfer\<close>, the level found by the
  n-th \<^verbatim>\<open>digitalRead\<close> and the value of the n-th \<^verbatim>\<open>micros()\<close>.
  \<open>samples\<close> is the static array; only indices below \<open>SAMPLE_COUNT\<close> exist, and
  every access goes through \<open>sample_load\<close> and \<open>sample_store\<close>, which check the
  index. \<open>touched\<close> lists the indices of the accesses made so far.
\<close>

record hw =
  vRange :: u16
  samples :: "nat \<Rightarrow> u32"
  miso :: "nat \<Rightarrow> u8"
  pin_level :: "nat \<Rightarrow> bool"
  clock :: "nat \<Rightarrow> u32"
  n_xfer :: nat
  n_read :: nat
  n_clk :: nat
  trace :: "event list"
  touched :: "nat list"

datatype error = OutOfBounds nat

definition emit :: "event \<Rightarrow> hw \<Rightarrow> hw" where
  "emit e s = s\<lparr>trace := trace s @ [e]\<rparr>"

definition digitalWrite :: "nat \<Rightarrow> bool \<Rightarrow> hw \<Rightarrow> hw" where
  "digitalWrite pin v s = emit (DigitalWrite pin v) s"

definition digitalRead :: "nat \<Rightarrow> hw \<Rightarrow> bool \<times> hw" where
  "digitalRead pin s =
     (let v = pin_level s (n_read s)
      in (v, emit (DigitalRead pin v) (s\<lparr>n_read := Suc (n_read s)\<rparr>)))"

definition SPI_beginTransaction :: "hw \<Rightarrow> hw" where
  "SPI_beginTransaction s = emit SpiBeginTransaction s"

definition SPI_endTransaction :: "hw \<Rightarrow> hw" where
  "SPI_endTransaction s = emit SpiEndTransaction s"

definition SPI_transfer :: "u8 \<Rightarrow> hw \<Rightarrow> u8 \<times> hw" where
  "SPI_transfer b s =
     (let r = miso s (n_xfer s)
      in (r, emit (SpiTransfer b r) (s\<lparr>n_xfer := Suc (n_xfer s)\<rparr>)))"

definition micros :: "hw \<Rightarrow> u32 \<times> hw" where
  "micros s =
     (let t = clock s (n_clk s)
      in (t, emit (Micros t) (s\<lparr>n_clk := Suc (n_clk s)\<rparr>)))"

definition sample_load :: "u32 \<Rightarrow> hw \<Rightarrow> error + (u32 \<times> hw)" where
  "sample_load i s =
     (if unat i < SAMPLE_COUNT
      then Inr (samples s (unat i), s\<lparr>touched := touched s @ [unat i]\<rparr>)
      else Inl (OutOfBounds (unat i)))"

definition sample_store :: "u32 \<Rightarrow> u32 \<Rightarrow> hw \<Rightarrow> error + hw" where
  "sample_store i v s =
     (if unat i < SAMPLE_COUNT
      then Inr (s\<lparr>samples := (samples s)(unat i := v), touched := touched s @ [unat i]\<rparr>)
      else Inl (OutOfBounds (unat i)))"

subsection \<open>SPI helpers\<close>

definition pack32 :: "u8 \<Rightarrow> u8 \<Rightarrow> u8 \<Rightarrow> u8 \<Rightarrow> u32" where
  "pack32 r0 r1 r2 r3 =
     push_bit 24 (ucast r0) OR push_bit 16 (ucast r1) OR push_bit 8 (ucast r2) OR ucast r3"

definition xfer32 :: "u8 \<Rightarrow> u8 \<Rightarrow> u8 \<Rightarrow> u8 \<Rightarrow> hw \<Rightarrow> u32 \<times> hw" where
  "xfer32 b0 b1 b2 b3 s =
     (let s0 = digitalWrite PIN_CS LOW s;
          (r0, s1) = SPI_transfer b0 s0;
          (r1, s2) = SPI_transfer b1 s1;
          (r2, s3) = SPI_transfer b2 s2;
          (r3, s4) = SPI_transfer b3 s3;
          s5 = digitalWrite PIN_CS HIGH s4
      in (pack32 r0 r1 r2 r3, s5))"

definition frameNOP :: "hw \<Rightarrow> u32 \<times> hw" where
  "frameNOP s = xfer32 0x00 0x00 0x00 0x00 s"

definition rvsReady :: "hw \<Rightarrow> bool \<times> hw" where
  "rvsReady s = (let (v, s1) = digitalRead PIN_RVS s in (v = HIGH, s1))"

definition writeRegHWord :: "u8 \<Rightarrow> u16 \<Rightarrow> hw \<Rightarrow> hw" where
  "writeRegHWord addr data s =
     snd (xfer32 0xD0 addr (ucast (drop_bit 8 data)) (ucast data) s)"

text \<open>
  \<^verbatim>\<open>while (!rvsReady()) { }\<close> has no bound: when the pin never reads HIGH the loop
  does not return, which is the value \<open>None\<close>.
\<close>

partial_function (option) wait_rvs :: "hw \<Rightarrow> hw option" where
  "wait_rvs s = (case rvsReady s of (r, s1) \<Rightarrow> if r then Some s1 else wait_rvs s1)"

subsection \<open>Configuration\<close>

definition adsxConfigureBasic :: "hw \<Rightarrow> hw option" where
  "adsxConfigureBasic s =
     (let s1 = SPI_beginTransaction s;
          s2 = writeRegHWord ADSX_REG_RANGE_SEL (ADSX_INTREF_ENABLE OR (vRange s1 AND 0x0F)) s1;
          (_, s3) = frameNOP s2;
          s4 = SPI_endTransaction s3
      in case wait_rvs s4 of
           None \<Rightarrow> None
         | Some s5 \<Rightarrow>
             (let s6 = SPI_beginTransaction s5;
                  (_, s7) = frameNOP s6
              in Some (SPI_endTransaction s7)))"

subsection \<open>Capture\<close>

lemma u32_succ_measure: "(i::u32) < N \<Longrightarrow> unat N - unat (i + 1) < unat N - unat i"
proof -
  assume "i < N"
  then have l: "unat i < unat N"
    by (simp add: word_less_nat_alt)
  have "unat N < 2 ^ 32"
    using unsigned_less [of N] by simp
  with l have "unat i + 1 < 2 ^ 32"
    by simp
  then have "unat (i + 1) = unat i + 1"
    by (simp add: unat_word_ariths)
  with l show ?thesis
    by simp
qed

text \<open>
  The \<^verbatim>\<open>for\<close> loop of \<^verbatim>\<open>capture_fast\<close>, from index \<open>i\<close>. The result is
  \<open>None\<close> when a ready-wait never ends, \<open>Some (Inl e)\<close> when the store leaves the
  array (undefined behaviour in C++), \<open>Some (Inr s)\<close> when the loop completes.
\<close>

function capture_loop :: "u32 \<Rightarrow> u32 \<Rightarrow> hw \<Rightarrow> (error + hw) option" where
  "capture_loop i N s =
     (if i < N then
        (case wait_rvs s of
           None \<Rightarrow> None
         | Some s1 \<Rightarrow>
             (case frameNOP s1 of (r, s2) \<Rightarrow>
                (case sample_store i r s2 of
                   Inl e \<Rightarrow> Some (Inl e)
                 | Inr s3 \<Rightarrow> capture_loop (i + 1) N s3)))
      else Some (Inr s))"
  by pat_completeness auto
termination
  by (relation "measure (\<lambda>(i, N, s). unat N - unat i)") (simp_all add: u32_succ_measure)

declare capture_loop.simps [simp del]

definition capture_fast :: "u32 \<Rightarrow> hw \<Rightarrow> (error + (u32 \<times> hw)) option" where
  "capture_fast N s =
     (let s1 = SPI_beginTransaction s;
          (_, s2) = frameNOP s1;
          s3 = SPI_endTransaction s2
      in case wait_rvs s3 of
           None \<Rightarrow> None
         | Some s4 \<Rightarrow>
             (let (t0, s5) = micros s4;
                  s6 = SPI_beginTransaction s5
              in case capture_loop 0 N s6 of
                   None \<Rightarrow> None
                 | Some (Inl e) \<Rightarrow> Some (Inl e)
                 | Some (Inr s7) \<Rightarrow>
                     (let s8 = SPI_endTransaction s7;
                          (t1, s9) = micros s8
                      in Some (Inr (t1 - t0, s9)))))"

subsection \<open>Post-processing\<close>

definition decode :: "u32 \<Rightarrow> u32" where
  "decode raw = drop_bit ADSX_CODE_SHIFT raw AND ADSX_CODE_MASK"

function decode_loop :: "u32 \<Rightarrow> u32 \<Rightarrow> hw \<Rightarrow> error + hw" where
  "decode_loop i N s =
     (if i < N then
        (case sample_load i s of
           Inl e \<Rightarrow> Inl e
         | Inr (raw, s1) \<Rightarrow>
             (case sample_store i (decode raw) s1 of
                Inl e \<Rightarrow> Inl e
              | Inr s2 \<Rightarrow> decode_loop (i + 1) N s2))
      else Inr s)"
  by pat_completeness auto
termination
  by (relation "measure (\<lambda>(i, N, s). unat N - unat i)") (simp_all add: u32_succ_measure)

declare decode_loop.simps [simp del]

definition decode_samples_in_place :: "u32 \<Rightarrow> hw \<Rightarrow> error + hw" where
  "decode_samples_in_place N s = decode_loop 0 N s"

subsection \<open>Single-precision arithmetic\<close>

text \<open>
  A \<^verbatim>\<open>float\<close> is IEEE-754 binary32. A finite binary32 value is a rational number, and
  each operation returns the exact result rounded to the nearest representable value,
  ties to the even significand. \<open>round_bin p qmin\<close> is that rounding for a format with
  \<open>p\<close> significand bits whose smallest subnormal is \<open>2 ^ qmin\<close>: the result is a
  multiple of \<open>2 ^ q\<close>, where \<open>q\<close> is \<open>p - 1\<close> below the exponent of the argument
  and never below \<open>qmin\<close>. Every operation of the source is rounded to binary32 on its
  own, as the assignments to \<^verbatim>\<open>float\<close> variables prescribe. The sign of zero is not
  tracked, and a result beyond the largest finite value (which would be an infinity) has
  no representation here: the definitions are for operations whose exact result lies in
  the finite range, as the full scales, spans and steps computed below do.
\<close>

type_synonym f32 = rat

definition pow2 :: "int \<Rightarrow> rat" where
  "pow2 e = (if 0 \<le> e then 2 ^ nat e else 1 / 2 ^ nat (- e))"

text \<open>The exponent of a positive rational: the \<open>e\<close> with \<open>2 ^ e \<le> a < 2 ^ (e + 1)\<close>.\<close>

definition ilog2 :: "rat \<Rightarrow> int" where
  "ilog2 a = (if 1 \<le> a then int (floorlog 2 (nat \<lfloor>a\<rfloor>)) - 1
              else - int (floorlog 2 (nat (\<lceil>1 / a\<rceil> - 1))))"

definition round_even :: "rat \<Rightarrow> int" where
  "round_even x =
     (let f = \<lfloor>x\<rfloor>; d = x - of_int f
      in if d < 1 / 2 then f else if 1 / 2 < d then f + 1 else if even f then f else f + 1)"

definition round_bin :: "nat \<Rightarrow> int \<Rightarrow> rat \<Rightarrow> rat" where
  "round_bin p qmin x =
     (if x = 0 then 0
      else let e = ilog2 \<bar>x\<bar>; q = max (e - int p + 1) qmin
           in of_int (round_even (x / pow2 q)) * pow2 q)"

definition f32_round :: "rat \<Rightarrow> f32" where
  "f32_round = round_bin 24 (- 149)"

definition f64_round :: "rat \<Rightarrow> rat" where
  "f64_round = round_bin 53 (- 1074)"

definition f32_add :: "f32 \<Rightarrow> f32 \<Rightarrow> f32" where
  "f32_add a b = f32_round (a + b)"

definition f32_sub :: "f32 \<Rightarrow> f32 \<Rightarrow> f32" where
  "f32_sub a b = f32_round (a - b)"

definition f32_mul :: "f32 \<Rightarrow> f32 \<Rightarrow> f32" where
  "f32_mul a b = f32_round (a * b)"

definition f32_div :: "f32 \<Rightarrow> f32 \<Rightarrow> f32" where
  "f32_div a b = f32_round (a / b)"

definition f32_neg :: "f32 \<Rightarrow> f32" where
  "f32_neg a = - a"

definition f32_of_u32 :: "u32 \<Rightarrow> f32" where
  "f32_of_u32 w = f32_round (of_nat (unat w))"

text \<open>\<^verbatim>\<open>#define VOLT_REF (float)4.096\<close>: the double literal, converted to float.\<close>

definition VOLT_REF :: f32 where
  "VOLT_REF = f32_round (f64_round (4096 / 1000))"

subsection \<open>Code to volts\<close>

text \<open>
  The multiplier is returned and \<^verbatim>\<open>isBipolar\<close> is written through the reference on
  every path, so the function returns the pair. The float literals are exact.
\<close>

definition adsxRangeMultiplier :: "u16 \<Rightarrow> f32 \<times> bool" where
  "adsxRangeMultiplier code =
     (let sel = code AND 0xF in
      if sel = ADSX_RANGE_BIPOLAR_3X then (3, True)
      else if sel = ADSX_RANGE_BIPOLAR_2P5X then (5 / 2, True)
      else if sel = ADSX_RANGE_BIPOLAR_1P5X then (3 / 2, True)
      else if sel = ADSX_RANGE_BIPOLAR_1P25X then (5 / 4, True)
      else if sel = ADSX_RANGE_BIPOLAR_0P625X then (5 / 8, True)
      else if sel = ADSX_RANGE_UNIPOLAR_3X then (3, False)
      else if sel = ADSX_RANGE_UNIPOLAR_2P5X then (5 / 2, False)
      else if sel = ADSX_RANGE_UNIPOLAR_1P5X then (3 / 2, False)
      else if sel = ADSX_RANGE_UNIPOLAR_1P25X then (5 / 4, False)
      else (5 / 4, False))"

definition adsxCodeToVolts :: "u32 \<Rightarrow> hw \<Rightarrow> f32" where
  "adsxCodeToVolts codeN s =
     (let codeN = (if codeN > ADSX_CODE_MASK then ADSX_CODE_MASK else codeN);
          (mult, bipolar) = adsxRangeMultiplier (vRange s);
          vref = VOLT_REF;
          PFS = f32_mul mult vref;
          NFS = (if bipolar then f32_neg PFS else 0);
          FSR = f32_sub PFS NFS;
          LSB = f32_div FSR (f32_of_u32 (push_bit ADSX_BITS 1))
      in f32_add NFS (f32_mul (f32_of_u32 codeN) LSB))"

text \<open>
  The quantities of the conversion as the specification names them, for a multiplier
  and a polarity.
\<close>

definition PFS :: "f32 \<Rightarrow> f32" where
  "PFS mult = f32_mul mult VOLT_REF"

definition NFS :: "f32 \<Rightarrow> bool \<Rightarrow> f32" where
  "NFS mult bipolar = (if bipolar then - PFS mult else 0)"

definition FSR :: "f32 \<Rightarrow> bool \<Rightarrow> f32" where
  "FSR mult bipolar = f32_sub (PFS mult) (NFS mult bipolar)"

definition LSB :: "f32 \<Rightarrow> bool \<Rightarrow> f32" where
  "LSB mult bipolar = f32_div (FSR mult bipolar) (2 ^ ADSX_BITS)"

subsection \<open>Describing traces\<close>

text \<open>
  The events of one chip-select-framed exchange of the bytes \<open>b0 .. b3\<close> when the
  device answers with \<open>m x .. m (x + 3)\<close>, and the 32-bit word those answers make.
\<close>

definition frame_events :: "u8 \<Rightarrow> u8 \<Rightarrow> u8 \<Rightarrow> u8 \<Rightarrow> (nat \<Rightarrow> u8) \<Rightarrow> nat \<Rightarrow> event list" where
  "frame_events b0 b1 b2 b3 m x =
     [DigitalWrite PIN_CS LOW,
      SpiTransfer b0 (m x),
      SpiTransfer b1 (m (x + 1)),
      SpiTransfer b2 (m (x + 2)),
      SpiTransfer b3 (m (x + 3)),
      DigitalWrite PIN_CS HIGH]"

definition rx_word :: "(nat \<Rightarrow> u8) \<Rightarrow> nat \<Rightarrow> u32" where
  "rx_word m x = pack32 (m x) (m (x + 1)) (m (x + 2)) (m (x + 3))"

text \<open>
  A ready-wait that spins \<open>k\<close> times reads LOW \<open>k\<close> times and then HIGH once.
  \<open>first_high lv p k\<close> says that, from read number \<open>p\<close> on, this is what the
  pin does.
\<close>

definition polls :: "nat \<Rightarrow> event list" where
  "polls k = replicate k (DigitalRead PIN_RVS LOW) @ [DigitalRead PIN_RVS HIGH]"

definition first_high :: "(nat \<Rightarrow> bool) \<Rightarrow> nat \<Rightarrow> nat \<Rightarrow> bool" where
  "first_high lv p k = ((\<forall>j<k. \<not> lv (p + j)) \<and> lv (p + k))"

definition waited :: "nat \<Rightarrow> hw \<Rightarrow> hw" where
  "waited k s = s\<lparr>n_read := n_read s + k + 1, trace := trace s @ polls k\<rparr>"

text \<open>
  The capture loop run with the spin counts \<open>ks\<close>, one per iteration: what the pin must
  do for that, and the events it leaves.
\<close>

fun spins_ok :: "(nat \<Rightarrow> bool) \<Rightarrow> nat \<Rightarrow> nat list \<Rightarrow> bool" where
  "spins_ok lv p [] = True"
| "spins_ok lv p (k # ks) = (first_high lv p k \<and> spins_ok lv (p + k + 1) ks)"

fun burst_events :: "(nat \<Rightarrow> u8) \<Rightarrow> nat \<Rightarrow> nat list \<Rightarrow> event list" where
  "burst_events m x [] = []"
| "burst_events m x (k # ks) =
     polls k @ frame_events 0 0 0 0 m x @ burst_events m (x + 4) ks"

text \<open>
  Reading a trace: the number of chip-select-framed exchanges in it, the bytes received
  in it, and the 32-bit words that a sequence of received bytes makes, four bytes to a
  word, first byte on top.
\<close>

definition n_exchanges :: "event list \<Rightarrow> nat" where
  "n_exchanges tr = length (filter (\<lambda>e. e = DigitalWrite PIN_CS LOW) tr)"

definition rx_bytes :: "event list \<Rightarrow> u8 list" where
  "rx_bytes tr = concat (map (\<lambda>e. case e of SpiTransfer b r \<Rightarrow> [r] | _ \<Rightarrow> []) tr)"

fun words_of :: "u8 list \<Rightarrow> u32 list" where
  "words_of (r0 # r1 # r2 # r3 # rs) = pack32 r0 r1 r2 r3 # words_of rs"
| "words_of _ = []"

text \<open>
  The state after the capture loop has run from index \<open>a\<close> with the spin counts
  \<open>ks\<close>, after one iteration of it, and after the decode loop has run over the indices
  from \<open>a\<close> up to \<open>b\<close>.
\<close>

definition iterated :: "nat \<Rightarrow> nat \<Rightarrow> hw \<Rightarrow> hw" where
  "iterated a k s = s\<lparr>
     samples := (samples s)(a := rx_word (miso s) (n_xfer s)),
     n_xfer := n_xfer s + 4,
     n_read := n_read s + k + 1,
     trace := trace s @ polls k @ frame_events 0 0 0 0 (miso s) (n_xfer s),
     touched := touched s @ [a]\<rparr>"

definition captured :: "nat \<Rightarrow> nat list \<Rightarrow> hw \<Rightarrow> hw" where
  "captured a ks s = s\<lparr>
     samples := (\<lambda>j. if a \<le> j \<and> j < a + length ks
                      then rx_word (miso s) (n_xfer s + 4 * (j - a)) else samples s j),
     n_xfer := n_xfer s + 4 * length ks,
     n_read := n_read s + sum_list ks + length ks,
     trace := trace s @ burst_events (miso s) (n_xfer s) ks,
     touched := touched s @ [a..<a + length ks]\<rparr>"

definition decoded :: "nat \<Rightarrow> nat \<Rightarrow> hw \<Rightarrow> hw" where
  "decoded a b s = s\<lparr>
     samples := (\<lambda>j. if a \<le> j \<and> j < b then decode (samples s j) else samples s j),
     touched := touched s @ concat (map (\<lambda>j. [j, j]) [a..<b])\<rparr>"

text \<open>
  The state after \<open>adsxConfigureBasic\<close> whose ready-wait spun \<open>k\<close> times, and after
  \<open>capture_fast\<close> whose first ready-wait spun \<open>k\<close> times and whose loop spun \<open>ks\<close>.
\<close>

definition configured :: "nat \<Rightarrow> hw \<Rightarrow> hw" where
  "configured k s = s\<lparr>
     n_xfer := n_xfer s + 12,
     n_read := n_read s + k + 1,
     trace := trace s @
       [SpiBeginTransaction] @
       frame_events 0xD0 ADSX_REG_RANGE_SEL
         (ucast (drop_bit 8 (ADSX_INTREF_ENABLE OR (vRange s AND 0x0F))))
         (ucast (ADSX_INTREF_ENABLE OR (vRange s AND 0x0F))) (miso s) (n_xfer s) @
       frame_events 0 0 0 0 (miso s) (n_xfer s + 4) @
       [SpiEndTransaction] @
       polls k @
       [SpiBeginTransaction] @
       frame_events 0 0 0 0 (miso s) (n_xfer s + 8) @
       [SpiEndTransaction]\<rparr>"

definition armed :: "nat \<Rightarrow> hw \<Rightarrow> hw" where
  "armed k s = SPI_beginTransaction (snd (micros (waited k
      (SPI_endTransaction (snd (frameNOP (SPI_beginTransaction s)))))))"

definition burst :: "nat \<Rightarrow> nat list \<Rightarrow> hw \<Rightarrow> hw" where
  "burst k ks s = s\<lparr>
     samples := (\<lambda>j. if j < length ks then rx_word (miso s) (n_xfer s + 4 + 4 * j)
                      else samples s j),
     n_xfer := n_xfer s + 4 + 4 * length ks,
     n_read := n_read s + k + 1 + sum_list ks + length ks,
     n_clk := n_clk s + 2,
     trace := trace s @
       [SpiBeginTransaction] @
       frame_events 0 0 0 0 (miso s) (n_xfer s) @
       [SpiEndTransaction] @
       polls k @
       [Micros (clock s (n_clk s))] @
       [SpiBeginTransaction] @
       burst_events (miso s) (n_xfer s + 4) ks @
       [SpiEndTransaction] @
       [Micros (clock s (n_clk s + 1))],
     touched := touched s @ [0..<length ks]\<rparr>"

text \<open>
  A bench set-up to run the sketch on: the device answers the n-th byte with \<open>n\<close>, the
  ready pin is LOW on every even read and HIGH on every odd one, the clock advances by
  1000 per reading, and the globals have their initial values.
\<close>

definition bench :: hw where
  "bench = \<lparr>vRange = ADSX_RANGE_BIPOLAR_2P5X, samples = (\<lambda>_. 0), miso = of_nat,
     pin_level = odd, clock = (\<lambda>n. 1000 * of_nat n), n_xfer = 0, n_read = 0, n_clk = 0,
     trace = [], touched = []\<rparr>"

section \<open>Lemmas\<close>

subsection \<open>Words\<close>

lemma u32_succ_unat: "(i::u32) < N \<Longrightarrow> unat (i + 1) = unat i + 1"
proof -
  assume "i < N"
  then have l: "unat i < unat N"
    by (simp add: word_less_nat_alt)
  have "unat N < 2 ^ 32"
    using unsigned_less [of N] by simp
  with l have "unat i + 1 < 2 ^ 32"
    by simp
  then show ?thesis
    by (simp add: unat_word_ariths)
qed

lemma mask_eq: "ADSX_CODE_MASK = mask 18"
  by (simp add: ADSX_CODE_MASK_def ADSX_BITS_def mask_eq_exp_minus_1)

lemma decode_eq: "decode raw = take_bit 18 (drop_bit 14 raw)"
  by (simp add: decode_def ADSX_CODE_SHIFT_def ADSX_BITS_def mask_eq take_bit_eq_mask)

lemma le_mask_take: "(code::u32) \<le> ADSX_CODE_MASK \<Longrightarrow> take_bit 18 code = code"
proof -
  assume "code \<le> ADSX_CODE_MASK"
  then have "uint code \<le> 262143"
    by (simp add: ADSX_CODE_MASK_def ADSX_BITS_def word_le_def)
  then have "uint code < 2 ^ 18" by simp
  then have "code AND mask 18 = code" by (simp only: mask_eq_iff)
  then show ?thesis by (simp add: take_bit_eq_mask)
qed

subsection \<open>The hardware primitives\<close>

lemma xfer32_run:
  "xfer32 b0 b1 b2 b3 s =
    (rx_word (miso s) (n_xfer s),
     s\<lparr>n_xfer := n_xfer s + 4, trace := trace s @ frame_events b0 b1 b2 b3 (miso s) (n_xfer s)\<rparr>)"
  by (simp add: xfer32_def digitalWrite_def SPI_transfer_def emit_def Let_def rx_word_def
      frame_events_def eval_nat_numeral)

lemma frameNOP_run:
  "frameNOP s =
    (rx_word (miso s) (n_xfer s),
     s\<lparr>n_xfer := n_xfer s + 4, trace := trace s @ frame_events 0 0 0 0 (miso s) (n_xfer s)\<rparr>)"
  by (simp add: frameNOP_def xfer32_run)

lemma rvsReady_run:
  "rvsReady s = (pin_level s (n_read s),
     s\<lparr>n_read := Suc (n_read s), trace := trace s @ [DigitalRead PIN_RVS (pin_level s (n_read s))]\<rparr>)"
  by (simp add: rvsReady_def digitalRead_def emit_def Let_def HIGH_def)


subsection \<open>The ready-wait\<close>

lemma first_high_0: "first_high lv p 0 = lv p"
  by (simp add: first_high_def)

lemma first_high_Suc: "first_high lv p (Suc k) = (\<not> lv p \<and> first_high lv (Suc p) k)"
  by (auto simp: first_high_def less_Suc_eq_0_disj)

lemma wait_rvs_first_high:
  "first_high (pin_level s) (n_read s) k \<Longrightarrow> wait_rvs s = Some (waited k s)"
proof (induction k arbitrary: s)
  case 0
  then show ?case
    by (subst wait_rvs.simps) (simp add: rvsReady_run first_high_0 waited_def polls_def HIGH_def)
next
  case (Suc k)
  let ?s1 = "s\<lparr>n_read := Suc (n_read s), trace := trace s @ [DigitalRead PIN_RVS False]\<rparr>"
  from Suc.prems have lo: "\<not> pin_level s (n_read s)"
    and fh: "first_high (pin_level ?s1) (n_read ?s1) k"
    by (simp_all add: first_high_Suc)
  have "wait_rvs s = wait_rvs ?s1"
    using lo by (subst wait_rvs.simps) (simp add: rvsReady_run)
  also have "\<dots> = Some (waited k ?s1)"
    using fh by (rule Suc.IH)
  also have "waited k ?s1 = waited (Suc k) s"
    by (simp add: waited_def polls_def LOW_def replicate_append_same)
  finally show ?case .
qed

lemma wait_rvs_SomeD:
  assumes "wait_rvs s = Some s'"
  shows "\<exists>k. first_high (pin_level s) (n_read s) k \<and> s' = waited k s"
proof (rule wait_rvs.raw_induct
    [where P = "\<lambda>s s'. \<exists>k. first_high (pin_level s) (n_read s) k \<and> s' = waited k s",
      OF _ assms])
  fix wait :: "hw \<Rightarrow> hw option" and s s' :: hw
  assume IH: "\<And>x y. wait x = Some y \<Longrightarrow>
      \<exists>k. first_high (pin_level x) (n_read x) k \<and> y = waited k x"
    and run: "(case rvsReady s of (r, s1) \<Rightarrow> if r then Some s1 else wait s1) = Some s'"
  show "\<exists>k. first_high (pin_level s) (n_read s) k \<and> s' = waited k s"
  proof (cases "pin_level s (n_read s)")
    case True
    with run have "s' = waited 0 s"
      by (simp add: rvsReady_run waited_def polls_def HIGH_def)
    with True show ?thesis
      by (auto simp: first_high_0 intro: exI [of _ 0])
  next
    case False
    let ?s1 = "s\<lparr>n_read := Suc (n_read s), trace := trace s @ [DigitalRead PIN_RVS False]\<rparr>"
    from False run have "wait ?s1 = Some s'"
      by (simp add: rvsReady_run)
    then obtain k where fh: "first_high (pin_level ?s1) (n_read ?s1) k" and s': "s' = waited k ?s1"
      using IH by blast
    have "waited k ?s1 = waited (Suc k) s"
      by (simp add: waited_def polls_def LOW_def replicate_append_same)
    with fh s' False show ?thesis
      by (auto simp: first_high_Suc intro!: exI [of _ "Suc k"])
  qed
qed

lemma first_high_ex:
  "\<exists>q\<ge>p. lv q \<Longrightarrow> \<exists>k. first_high lv p k"
proof -
  assume "\<exists>q\<ge>p. lv q"
  then obtain q where "p \<le> q" "lv q" by blast
  then have e: "\<exists>k. lv (p + k)" by (metis le_Suc_ex)
  define k where "k = (LEAST k. lv (p + k))"
  have "lv (p + k)" unfolding k_def using e by (rule LeastI_ex)
  moreover have "\<forall>j<k. \<not> lv (p + j)" unfolding k_def using not_less_Least by blast
  ultimately show ?thesis unfolding first_high_def by blast
qed

subsection \<open>The decode loop\<close>

lemma decoded_empty: "b \<le> a \<Longrightarrow> decoded a b s = s"
proof -
  assume "b \<le> a"
  then have "(\<lambda>j. if a \<le> j \<and> j < b then decode (samples s j) else samples s j) = samples s"
    by (auto simp: fun_eq_iff)
  with \<open>b \<le> a\<close> show ?thesis
    by (simp add: decoded_def)
qed

lemma decoded_step:
  "a < b \<Longrightarrow>
   decoded (Suc a) b (s\<lparr>samples := (samples s)(a := decode (samples s a)), touched := touched s @ [a, a]\<rparr>)
     = decoded a b s"
  by (auto simp: decoded_def upt_conv_Cons fun_eq_iff)

lemma decode_loop_run:
  "unat N \<le> SAMPLE_COUNT \<Longrightarrow> decode_loop i N s = Inr (decoded (unat i) (unat N) s)"
proof (induction i N s rule: decode_loop.induct)
  case (1 i N s)
  show ?case
  proof (cases "i < N")
    case False
    then have "unat N \<le> unat i" by (simp add: word_less_nat_alt)
    with False show ?thesis
      by (subst decode_loop.simps) (simp add: decoded_empty)
  next
    case True
    then have lt: "unat i < unat N" by (simp add: word_less_nat_alt)
    with "1.prems" have inb: "unat i < SAMPLE_COUNT" by simp
    let ?s1 = "s\<lparr>touched := touched s @ [unat i]\<rparr>"
    let ?s2 = "s\<lparr>samples := (samples s)(unat i := decode (samples s (unat i))), touched := touched s @ [unat i, unat i]\<rparr>"
    have ld: "sample_load i s = Inr (samples s (unat i), ?s1)"
      using inb by (simp add: sample_load_def)
    have st: "sample_store i (decode (samples s (unat i))) ?s1 = Inr ?s2"
      using inb by (simp add: sample_store_def)
    have ih: "decode_loop (i + 1) N ?s2 = Inr (decoded (unat (i + 1)) (unat N) ?s2)"
      using True ld st "1.prems" by (intro "1.IH") auto
    have eq: "decoded (unat (i + 1)) (unat N) ?s2 = decoded (unat i) (unat N) s"
      using lt by (simp add: u32_succ_unat [OF True] decoded_step)
    have "decode_loop i N s = decode_loop (i + 1) N ?s2"
      using True by (subst decode_loop.simps) (simp add: ld st)
    then show ?thesis
      by (simp only: ih eq)
  qed
qed

subsection \<open>The capture loop\<close>

lemma captured_Nil: "captured a [] s = s"
  by (rule hw.equality) (auto simp: captured_def fun_eq_iff)

lemma captured_Cons: "captured (Suc a) ks (iterated a k s) = captured a (k # ks) s"
proof (rule hw.equality)
  show "samples (captured (Suc a) ks (iterated a k s)) = samples (captured a (k # ks) s)"
  proof (rule ext)
    fix j
    have "Suc a \<le> j \<Longrightarrow> 4 + 4 * (j - Suc a) = 4 * (j - a)"
      by arith
    then show "samples (captured (Suc a) ks (iterated a k s)) j = samples (captured a (k # ks) s) j"
      by (auto simp: captured_def iterated_def add.assoc)
  qed
  show "touched (captured (Suc a) ks (iterated a k s)) = touched (captured a (k # ks) s)"
  proof -
    have "[a..<a + length (k # ks)] = a # [Suc a..<Suc a + length ks]"
      by (simp add: upt_conv_Cons del: upt_Suc)
    then show ?thesis
      by (simp add: captured_def iterated_def del: upt_Suc)
  qed
qed (simp_all add: captured_def iterated_def)

lemma iteration_run:
  assumes "first_high (pin_level s) (n_read s) k" and "unat i < SAMPLE_COUNT"
  shows "wait_rvs s = Some (waited k s)"
    and "sample_store i (fst (frameNOP (waited k s))) (snd (frameNOP (waited k s)))
           = Inr (iterated (unat i) k s)"
  using assms
  by (simp_all add: wait_rvs_first_high frameNOP_run sample_store_def waited_def iterated_def)

lemma capture_loop_run:
  "spins_ok (pin_level s) (n_read s) ks \<Longrightarrow> unat i + length ks = unat N \<Longrightarrow>
   unat N \<le> SAMPLE_COUNT \<Longrightarrow> capture_loop i N s = Some (Inr (captured (unat i) ks s))"
proof (induction ks arbitrary: i s)
  case Nil
  then have "\<not> i < N" by (simp add: word_less_nat_alt)
  then show ?case
    by (subst capture_loop.simps) (simp add: captured_Nil)
next
  case (Cons k ks)
  from Cons.prems have lt: "i < N" by (simp add: word_less_nat_alt)
  then have suc: "unat (i + 1) = Suc (unat i)" by (simp add: u32_succ_unat)
  from Cons.prems have inb: "unat i < SAMPLE_COUNT" by simp
  from Cons.prems have fh: "first_high (pin_level s) (n_read s) k" by simp
  let ?s3 = "iterated (unat i) k s"
  have "spins_ok (pin_level ?s3) (n_read ?s3) ks"
    using Cons.prems by (simp add: iterated_def)
  moreover have "unat (i + 1) + length ks = unat N"
    using Cons.prems suc by simp
  ultimately have ih: "capture_loop (i + 1) N ?s3 = Some (Inr (captured (unat (i + 1)) ks ?s3))"
    using Cons.prems(3) by (rule Cons.IH)
  have "capture_loop i N s = capture_loop (i + 1) N ?s3"
    using lt iteration_run [OF fh inb]
    by (subst capture_loop.simps) (simp add: case_prod_beta)
  then show ?case
    by (simp only: ih suc captured_Cons)
qed

lemma capture_loop_SomeD:
  "capture_loop i N s = Some r \<Longrightarrow> unat i \<le> unat N \<Longrightarrow> unat N \<le> SAMPLE_COUNT \<Longrightarrow>
   \<exists>ks. spins_ok (pin_level s) (n_read s) ks \<and> unat i + length ks = unat N \<and>
        r = Inr (captured (unat i) ks s)"
proof (induction i N s rule: capture_loop.induct)
  case (1 i N s)
  show ?case
  proof (cases "i < N")
    case False
    with "1.prems" have "unat i = unat N" by (simp add: word_less_nat_alt)
    moreover from False "1.prems"(1) have "r = Inr s"
      by (subst (asm) capture_loop.simps) simp
    ultimately show ?thesis
      by (intro exI [of _ "[]"]) (simp add: captured_Nil)
  next
    case True
    then have suc: "unat (i + 1) = Suc (unat i)" by (simp add: u32_succ_unat)
    from True have lt: "unat i < unat N" by (simp add: word_less_nat_alt)
    with "1.prems" have inb: "unat i < SAMPLE_COUNT" by simp
    from True "1.prems"(1) obtain s1 where w: "wait_rvs s = Some s1"
      by (subst (asm) capture_loop.simps) (auto split: option.splits)
    then obtain k where fh: "first_high (pin_level s) (n_read s) k" and s1: "s1 = waited k s"
      using wait_rvs_SomeD by blast
    let ?s3 = "iterated (unat i) k s"
    note it = iteration_run [OF fh inb]
    have step: "capture_loop i N s = capture_loop (i + 1) N ?s3"
      using True it by (subst capture_loop.simps) (simp add: case_prod_beta)
    have "\<exists>ks. spins_ok (pin_level ?s3) (n_read ?s3) ks \<and> unat (i + 1) + length ks = unat N \<and>
        r = Inr (captured (unat (i + 1)) ks ?s3)"
    proof (rule "1.IH" [OF True w [unfolded s1]])
      show "(fst (frameNOP (waited k s)), snd (frameNOP (waited k s))) = frameNOP (waited k s)" by simp
      show "sample_store i (fst (frameNOP (waited k s))) (snd (frameNOP (waited k s))) = Inr ?s3"
        by (rule it(2))
      show "capture_loop (i + 1) N ?s3 = Some r" using step "1.prems"(1) by simp
      show "unat (i + 1) \<le> unat N" using lt suc by simp
      show "unat N \<le> SAMPLE_COUNT" by (rule "1.prems"(3))
    qed
    then obtain ks where ks: "spins_ok (pin_level ?s3) (n_read ?s3) ks"
      "unat (i + 1) + length ks = unat N" "r = Inr (captured (unat (i + 1)) ks ?s3)"
      by blast
    have "spins_ok (pin_level s) (n_read s) (k # ks)"
      using fh ks(1) by (simp add: iterated_def)
    moreover have "unat i + length (k # ks) = unat N"
      using ks(2) suc by simp
    moreover have "r = Inr (captured (unat i) (k # ks) s)"
      using ks(3) by (simp only: suc captured_Cons)
    ultimately show ?thesis by blast
  qed
qed

subsection \<open>Rounding\<close>

lemma floorlog2_eqI: "2 ^ w \<le> n \<Longrightarrow> n < 2 ^ Suc w \<Longrightarrow> floorlog 2 n = Suc w"
  by (intro antisym floorlog_leI floorlog_ge_SucI) auto

lemma nat_pred_less: "c \<le> int n \<Longrightarrow> 0 < n \<Longrightarrow> nat (c - 1) < n"
  by linarith

lemma nat_pred_ge: "int n < c \<Longrightarrow> n \<le> nat (c - 1)"
  by linarith

lemma pow2_pos: "0 < pow2 e"
  by (simp add: pow2_def)

lemma ilog2_eqI:
  assumes lo: "pow2 e \<le> a" and hi: "a < pow2 (e + 1)"
  shows "ilog2 a = e"
proof (cases "0 \<le> e")
  case True
  define w where "w = nat e"
  from True have e: "e = int w" by (simp add: w_def)
  from lo hi have lo': "2 ^ w \<le> a" and hi': "a < 2 ^ Suc w"
    by (simp_all add: pow2_def e nat_add_distrib)
  have "(1::rat) \<le> 2 ^ w" by simp
  with lo' have a1: "1 \<le> a" by linarith
  have "(2::int) ^ w \<le> \<lfloor>a\<rfloor>"
    using lo' by (simp add: le_floor_iff)
  then have n_lo: "2 ^ w \<le> nat \<lfloor>a\<rfloor>"
    by (simp add: le_nat_iff)
  have "\<lfloor>a\<rfloor> < 2 ^ Suc w"
    using hi' by (simp add: floor_less_iff)
  moreover have "0 \<le> \<lfloor>a\<rfloor>"
    using a1 by simp
  ultimately have n_hi: "nat \<lfloor>a\<rfloor> < 2 ^ Suc w"
    by (simp add: nat_less_iff)
  from n_lo n_hi have "floorlog 2 (nat \<lfloor>a\<rfloor>) = Suc w"
    by (rule floorlog2_eqI)
  with a1 show ?thesis
    by (simp add: ilog2_def e)
next
  case False
  define m where "m = nat (- e) - 1"
  from False have e: "e = - int (Suc m)" by (simp add: m_def)
  from lo have lo': "1 / 2 ^ Suc m \<le> a"
    by (simp add: pow2_def e nat_add_distrib)
  from hi have hi': "a < 1 / 2 ^ m"
    by (cases m) (simp_all add: pow2_def e nat_add_distrib)
  have a0: "0 < a" using lo pow2_pos [of e] by linarith
  have "1 / (2::rat) ^ m \<le> 1" by simp
  with hi' have a1: "\<not> 1 \<le> a" by linarith
  have up: "1 / a \<le> 2 ^ Suc m"
    using lo' a0 by (simp add: field_simps)
  have dn: "2 ^ m < 1 / a"
    using hi' a0 by (simp add: field_simps)
  have "\<lceil>1 / a\<rceil> \<le> 2 ^ Suc m"
    using up by (simp add: ceiling_le_iff)
  then have n_hi: "nat (\<lceil>1 / a\<rceil> - 1) < 2 ^ Suc m"
    using nat_pred_less [of "\<lceil>1 / a\<rceil>" "2 ^ Suc m"] by simp
  have "2 ^ m < \<lceil>1 / a\<rceil>"
    using dn by (simp add: less_ceiling_iff)
  then have n_lo: "2 ^ m \<le> nat (\<lceil>1 / a\<rceil> - 1)"
    using nat_pred_ge [of "2 ^ m" "\<lceil>1 / a\<rceil>"] by simp
  from n_lo n_hi have "floorlog 2 (nat (\<lceil>1 / a\<rceil> - 1)) = Suc m"
    by (rule floorlog2_eqI)
  with a1 show ?thesis
    by (simp add: ilog2_def e)
qed

lemma round_bin_at:
  assumes "pow2 e \<le> \<bar>x\<bar>" and "\<bar>x\<bar> < pow2 (e + 1)"
  shows "round_bin p qmin x =
    of_int (round_even (x / pow2 (max (e - int p + 1) qmin))) * pow2 (max (e - int p + 1) qmin)"
proof -
  from assms(1) pow2_pos [of e] have "x \<noteq> 0" by auto
  moreover from assms have "ilog2 \<bar>x\<bar> = e" by (rule ilog2_eqI)
  ultimately show ?thesis by (simp add: round_bin_def Let_def)
qed

lemma f32_round_at:
  "pow2 e \<le> \<bar>x\<bar> \<Longrightarrow> \<bar>x\<bar> < pow2 (e + 1) \<Longrightarrow> - 126 \<le> e \<Longrightarrow>
   f32_round x = of_int (round_even (x / pow2 (e - 23))) * pow2 (e - 23)"
  by (cases "e = - 126") (simp_all add: f32_round_def round_bin_at [of e] max_def)

lemma floor_rat_numeral: "\<lfloor>numeral a / numeral b :: rat\<rfloor> = numeral a div numeral b"
  by (metis floor_divide_of_int_eq of_int_numeral)

lemma floor_rat_neg_numeral: "\<lfloor>- (numeral a / numeral b) :: rat\<rfloor> = - numeral a div numeral b"
  by (metis divide_minus_left floor_divide_of_int_eq of_int_neg_numeral of_int_numeral)

lemmas f32_eval = pow2_def round_even_def Let_def floor_rat_numeral floor_rat_neg_numeral

lemmas f32_round_bins =
  f32_round_at [of "- 20"] f32_round_at [of "- 19"] f32_round_at [of "- 18"]
  f32_round_at [of "- 17"] f32_round_at [of "- 16"] f32_round_at [of "- 15"]
  f32_round_at [of "- 14"] f32_round_at [of "- 13"] f32_round_at [of "- 12"]
  f32_round_at [of "- 3"] f32_round_at [of "- 2"] f32_round_at [of "- 1"]
  f32_round_at [of 0] f32_round_at [of 1] f32_round_at [of 2] f32_round_at [of 3]
  f32_round_at [of 4] f32_round_at [of 5] f32_round_at [of 17] f32_round_at [of 18]

lemma f32_round_0: "f32_round 0 = 0"
  by (simp add: f32_round_def round_bin_def)

lemma VOLT_REF_eq: "VOLT_REF = 8589935 / 2097152"
  by (simp add: VOLT_REF_def f64_round_def round_bin_at [of 2] f32_round_bins f32_eval)

subsection \<open>Packing and the range table\<close>

lemma pack32_bytes:
  "ucast (drop_bit 24 (pack32 r0 r1 r2 r3)) = r0"
  "ucast (drop_bit 16 (pack32 r0 r1 r2 r3)) = r1"
  "ucast (drop_bit 8 (pack32 r0 r1 r2 r3)) = r2"
  "ucast (pack32 r0 r1 r2 r3) = r3"
  unfolding pack32_def
  by (rule bit_word_eqI; auto simp: bit_simps dest: bit_imp_le_length)+

lemma nibble_idem: "(c AND 0xF) AND 0xF = (c AND 0xF :: u16)"
  by (simp add: and.assoc)

lemma adsxRangeMultiplier_nibble: "adsxRangeMultiplier (c AND 0xF) = adsxRangeMultiplier c"
  by (simp add: adsxRangeMultiplier_def nibble_idem)


lemma range_cases:
  "adsxRangeMultiplier c \<in> {(3, True), (5 / 2, True), (3 / 2, True), (5 / 4, True), (5 / 8, True),
     (3, False), (5 / 2, False), (3 / 2, False), (5 / 4, False)}"
  by (simp add: adsxRangeMultiplier_def Let_def)

subsection \<open>Configuration and capture\<close>

lemma n_exchanges_append: "n_exchanges (xs @ ys) = n_exchanges xs + n_exchanges ys"
  by (simp add: n_exchanges_def)

lemma n_exchanges_frame: "n_exchanges (frame_events b0 b1 b2 b3 m x) = 1"
  by (simp add: n_exchanges_def frame_events_def HIGH_def LOW_def)

lemma n_exchanges_polls: "n_exchanges (polls k) = 0"
  by (simp add: n_exchanges_def polls_def)

lemma n_exchanges_simps:
  "n_exchanges [] = 0"
  "n_exchanges (SpiBeginTransaction # tr) = n_exchanges tr"
  "n_exchanges (SpiEndTransaction # tr) = n_exchanges tr"
  "n_exchanges (Micros t # tr) = n_exchanges tr"
  by (simp_all add: n_exchanges_def)

lemma wait_rvs_None:
  "wait_rvs s = None \<longleftrightarrow> (\<forall>k. \<not> first_high (pin_level s) (n_read s) k)"
proof
  assume "wait_rvs s = None"
  then show "\<forall>k. \<not> first_high (pin_level s) (n_read s) k"
    using wait_rvs_first_high by fastforce
next
  assume no: "\<forall>k. \<not> first_high (pin_level s) (n_read s) k"
  show "wait_rvs s = None"
  proof (cases "wait_rvs s")
    case None
    then show ?thesis .
  next
    case (Some s')
    then obtain k where "first_high (pin_level s) (n_read s) k"
      using wait_rvs_SomeD by blast
    with no show ?thesis
      by blast
  qed
qed

lemma wait_rvs_Some_iff:
  "wait_rvs s = Some s' \<longleftrightarrow> (\<exists>k. first_high (pin_level s) (n_read s) k \<and> s' = waited k s)"
  using wait_rvs_first_high wait_rvs_SomeD by fastforce

lemma SPI_beginTransaction_run:
  "SPI_beginTransaction s = s\<lparr>trace := trace s @ [SpiBeginTransaction]\<rparr>"
  by (simp add: SPI_beginTransaction_def emit_def)

lemma SPI_endTransaction_run:
  "SPI_endTransaction s = s\<lparr>trace := trace s @ [SpiEndTransaction]\<rparr>"
  by (simp add: SPI_endTransaction_def emit_def)

lemma micros_run:
  "micros s = (clock s (n_clk s), s\<lparr>n_clk := Suc (n_clk s), trace := trace s @ [Micros (clock s (n_clk s))]\<rparr>)"
  by (simp add: micros_def emit_def Let_def)

lemma writeRegHWord_run:
  "writeRegHWord addr data s =
     s\<lparr>n_xfer := n_xfer s + 4,
       trace := trace s @
         frame_events 0xD0 addr (ucast (drop_bit 8 data)) (ucast data) (miso s) (n_xfer s)\<rparr>"
  by (simp add: writeRegHWord_def xfer32_run)

lemma nop_transaction_run:
  "SPI_endTransaction (snd (frameNOP (SPI_beginTransaction s))) =
     s\<lparr>n_xfer := n_xfer s + 4,
       trace := trace s @ [SpiBeginTransaction] @ frame_events 0 0 0 0 (miso s) (n_xfer s) @
         [SpiEndTransaction]\<rparr>"
  by (rule hw.equality)
    (simp_all add: SPI_beginTransaction_run SPI_endTransaction_run frameNOP_run)

lemma config_head_run:
  "SPI_endTransaction (snd (frameNOP (writeRegHWord addr data (SPI_beginTransaction s)))) =
     s\<lparr>n_xfer := n_xfer s + 8,
       trace := trace s @ [SpiBeginTransaction] @
         frame_events 0xD0 addr (ucast (drop_bit 8 data)) (ucast data) (miso s) (n_xfer s) @
         frame_events 0 0 0 0 (miso s) (n_xfer s + 4) @ [SpiEndTransaction]\<rparr>"
  by (rule hw.equality)
    (simp_all add: SPI_beginTransaction_run SPI_endTransaction_run frameNOP_run writeRegHWord_run)

lemma adsxConfigureBasic_alt:
  "adsxConfigureBasic s =
     (case wait_rvs (SPI_endTransaction (snd (frameNOP
             (writeRegHWord ADSX_REG_RANGE_SEL (ADSX_INTREF_ENABLE OR (vRange s AND 0x0F))
                (SPI_beginTransaction s))))) of
        None \<Rightarrow> None
      | Some s5 \<Rightarrow> Some (SPI_endTransaction (snd (frameNOP (SPI_beginTransaction s5)))))"
proof -
  have "vRange (SPI_beginTransaction s) = vRange s"
    by (simp add: SPI_beginTransaction_run)
  then show ?thesis
    by (simp add: adsxConfigureBasic_def Let_def case_prod_beta cong: option.case_cong)
qed

lemma adsxConfigureBasic_Some_iff:
  "adsxConfigureBasic s = Some s' \<longleftrightarrow>
     (\<exists>k. first_high (pin_level s) (n_read s) k \<and> s' = configured k s)"
proof -
  define s4 where "s4 = SPI_endTransaction (snd (frameNOP
      (writeRegHWord ADSX_REG_RANGE_SEL (ADSX_INTREF_ENABLE OR (vRange s AND 0x0F))
         (SPI_beginTransaction s))))"
  have run: "adsxConfigureBasic s =
      (case wait_rvs s4 of None \<Rightarrow> None
       | Some s5 \<Rightarrow> Some (SPI_endTransaction (snd (frameNOP (SPI_beginTransaction s5)))))"
    unfolding s4_def by (rule adsxConfigureBasic_alt)
  have s4: "pin_level s4 = pin_level s" "n_read s4 = n_read s"
    by (simp_all add: s4_def config_head_run)
  have tail: "SPI_endTransaction (snd (frameNOP (SPI_beginTransaction (waited k s4)))) = configured k s"
    for k
    unfolding nop_transaction_run
    by (rule hw.equality) (simp_all add: waited_def s4_def config_head_run configured_def)
  show ?thesis
  proof
    assume some: "adsxConfigureBasic s = Some s'"
    with run obtain s5 where w: "wait_rvs s4 = Some s5"
      by (auto split: option.splits)
    then obtain k where fh: "first_high (pin_level s4) (n_read s4) k" and s5: "s5 = waited k s4"
      using wait_rvs_SomeD by blast
    from some run w s5 have "s' = configured k s"
      by (simp add: tail)
    with fh s4 show "\<exists>k. first_high (pin_level s) (n_read s) k \<and> s' = configured k s"
      by auto
  next
    assume "\<exists>k. first_high (pin_level s) (n_read s) k \<and> s' = configured k s"
    then obtain k where fh: "first_high (pin_level s4) (n_read s4) k" and s': "s' = configured k s"
      using s4 by auto
    from fh have "wait_rvs s4 = Some (waited k s4)"
      by (rule wait_rvs_first_high)
    with run show "adsxConfigureBasic s = Some s'"
      by (simp add: tail s')
  qed
qed

lemma n_exchanges_configured:
  "n_exchanges (trace (configured k s)) = n_exchanges (trace s) + 3"
  by (simp add: configured_def n_exchanges_append n_exchanges_frame n_exchanges_polls
      n_exchanges_simps)

lemma capture_fast_alt:
  "capture_fast N s =
     (case wait_rvs (SPI_endTransaction (snd (frameNOP (SPI_beginTransaction s)))) of
        None \<Rightarrow> None
      | Some s4 \<Rightarrow>
          (case capture_loop 0 N (SPI_beginTransaction (snd (micros s4))) of
             None \<Rightarrow> None
           | Some (Inl e) \<Rightarrow> Some (Inl e)
           | Some (Inr s7) \<Rightarrow>
               Some (Inr (fst (micros (SPI_endTransaction s7)) - fst (micros s4),
                          snd (micros (SPI_endTransaction s7))))))"
  by (simp add: capture_fast_def Let_def case_prod_beta cong: option.case_cong sum.case_cong)

lemma armed_run:
  "armed k s = s\<lparr>
     n_xfer := n_xfer s + 4,
     n_read := n_read s + k + 1,
     n_clk := n_clk s + 1,
     trace := trace s @ [SpiBeginTransaction] @ frame_events 0 0 0 0 (miso s) (n_xfer s) @
       [SpiEndTransaction] @ polls k @ [Micros (clock s (n_clk s))] @ [SpiBeginTransaction]\<rparr>"
  unfolding armed_def nop_transaction_run
  by (rule hw.equality) (simp_all add: waited_def micros_run SPI_beginTransaction_run)

lemma burst_run:
  "snd (micros (SPI_endTransaction (captured 0 ks (armed k s)))) = burst k ks s"
proof (rule hw.equality)
  show "samples (snd (micros (SPI_endTransaction (captured 0 ks (armed k s))))) =
      samples (burst k ks s)"
    by (auto simp: fun_eq_iff armed_run captured_def micros_run SPI_endTransaction_run burst_def)
qed (simp_all add: armed_run captured_def micros_run SPI_endTransaction_run burst_def)

lemma burst_time:
  "fst (micros (SPI_endTransaction (captured 0 ks (armed k s)))) = clock s (n_clk s + 1)"
  by (simp add: armed_run captured_def micros_run SPI_endTransaction_run)

lemma capture_fast_Some_iff:
  assumes cap: "unat N \<le> SAMPLE_COUNT"
  shows "capture_fast N s = Some r \<longleftrightarrow>
     (\<exists>k ks. first_high (pin_level s) (n_read s) k \<and>
         spins_ok (pin_level s) (n_read s + k + 1) ks \<and> length ks = unat N \<and>
         r = Inr (clock s (n_clk s + 1) - clock s (n_clk s), burst k ks s))"
proof -
  define s3 where "s3 = SPI_endTransaction (snd (frameNOP (SPI_beginTransaction s)))"
  have s3: "pin_level s3 = pin_level s" "n_read s3 = n_read s"
    by (simp_all add: s3_def nop_transaction_run)
  have arm: "SPI_beginTransaction (snd (micros (waited k s3))) = armed k s" for k
    by (simp add: armed_def s3_def)
  have t0: "fst (micros (waited k s3)) = clock s (n_clk s)" for k
    by (simp add: s3_def nop_transaction_run waited_def micros_run)
  have armed: "pin_level (armed k s) = pin_level s" "n_read (armed k s) = n_read s + k + 1" for k
    by (simp_all add: armed_run)
  show ?thesis
  proof
    assume some: "capture_fast N s = Some r"
    then obtain s4 where w: "wait_rvs s3 = Some s4"
      by (auto simp: capture_fast_alt s3_def split: option.splits)
    then obtain k where fh: "first_high (pin_level s3) (n_read s3) k" and s4: "s4 = waited k s3"
      using wait_rvs_SomeD by blast
    from some w obtain l where l: "capture_loop 0 N (armed k s) = Some l"
      by (auto simp: capture_fast_alt s3_def [symmetric] s4 arm split: option.splits)
    then obtain ks where ks: "spins_ok (pin_level (armed k s)) (n_read (armed k s)) ks"
        "unat (0 :: u32) + length ks = unat N" "l = Inr (captured (unat (0 :: u32)) ks (armed k s))"
      using capture_loop_SomeD [OF l _ cap] by auto
    from some w l ks(3) have "r = Inr (clock s (n_clk s + 1) - clock s (n_clk s), burst k ks s)"
      by (simp add: capture_fast_alt s3_def [symmetric] s4 arm burst_run burst_time t0)
    with fh ks(1,2) show "\<exists>k ks. first_high (pin_level s) (n_read s) k \<and>
         spins_ok (pin_level s) (n_read s + k + 1) ks \<and> length ks = unat N \<and>
         r = Inr (clock s (n_clk s + 1) - clock s (n_clk s), burst k ks s)"
      by (auto simp: s3 armed)
  next
    assume "\<exists>k ks. first_high (pin_level s) (n_read s) k \<and>
         spins_ok (pin_level s) (n_read s + k + 1) ks \<and> length ks = unat N \<and>
         r = Inr (clock s (n_clk s + 1) - clock s (n_clk s), burst k ks s)"
    then obtain k ks where fh: "first_high (pin_level s3) (n_read s3) k"
      and sp: "spins_ok (pin_level (armed k s)) (n_read (armed k s)) ks"
      and len: "unat (0 :: u32) + length ks = unat N"
      and r: "r = Inr (clock s (n_clk s + 1) - clock s (n_clk s), burst k ks s)"
      by (auto simp: s3 armed)
    from fh have w: "wait_rvs s3 = Some (waited k s3)"
      by (rule wait_rvs_first_high)
    have l: "capture_loop 0 N (armed k s) = Some (Inr (captured (unat (0 :: u32)) ks (armed k s)))"
      using sp len cap by (rule capture_loop_run)
    show "capture_fast N s = Some r"
      using w l
      by (simp add: capture_fast_alt s3_def [symmetric] arm burst_run burst_time r t0)
  qed
qed

lemma spins_ok_ex:
  "\<forall>p. \<exists>q\<ge>p. lv q \<Longrightarrow> \<exists>ks. length ks = n \<and> spins_ok lv p ks"
proof (induction n arbitrary: p)
  case 0
  then show ?case by simp
next
  case (Suc n)
  from Suc.prems obtain k where k: "first_high lv p k"
    using first_high_ex by blast
  from Suc.IH [OF Suc.prems, of "p + k + 1"] obtain ks where
    "length ks = n" "spins_ok lv (p + k + 1) ks"
    by blast
  with k have "length (k # ks) = Suc n \<and> spins_ok lv p (k # ks)"
    by simp
  then show ?case by blast
qed

lemma capture_fast_returns:
  assumes "unat N \<le> SAMPLE_COUNT" and "\<forall>p. \<exists>q\<ge>p. pin_level s q"
  shows "capture_fast N s \<noteq> None"
proof -
  from assms(2) obtain k where k: "first_high (pin_level s) (n_read s) k"
    using first_high_ex by blast
  from assms(2) obtain ks where "length ks = unat N" "spins_ok (pin_level s) (n_read s + k + 1) ks"
    using spins_ok_ex by blast
  with k have "capture_fast N s =
      Some (Inr (clock s (n_clk s + 1) - clock s (n_clk s), burst k ks s))"
    using capture_fast_Some_iff [OF assms(1)] by blast
  then show ?thesis by simp
qed

lemma capture_loop_overrun:
  "\<forall>p. \<exists>q\<ge>p. pin_level s q \<Longrightarrow> unat i \<le> SAMPLE_COUNT \<Longrightarrow> SAMPLE_COUNT < unat N \<Longrightarrow>
   capture_loop i N s = Some (Inl (OutOfBounds SAMPLE_COUNT))"
proof (induction "SAMPLE_COUNT - unat i" arbitrary: i s)
  case 0
  then have i: "unat i = SAMPLE_COUNT" by simp
  with "0.prems" have lt: "i < N" by (simp add: word_less_nat_alt)
  from "0.prems"(1) obtain k where "first_high (pin_level s) (n_read s) k"
    using first_high_ex by blast
  then have w: "wait_rvs s = Some (waited k s)"
    by (rule wait_rvs_first_high)
  show ?case
    using lt w i by (subst capture_loop.simps) (simp add: case_prod_beta sample_store_def)
next
  case (Suc n)
  then have inb: "unat i < SAMPLE_COUNT" by simp
  with Suc.prems have lt: "i < N" by (simp add: word_less_nat_alt)
  then have suc: "unat (i + 1) = Suc (unat i)" by (simp add: u32_succ_unat)
  from Suc.prems(1) obtain k where fh: "first_high (pin_level s) (n_read s) k"
    using first_high_ex by blast
  let ?s3 = "iterated (unat i) k s"
  have step: "capture_loop i N s = capture_loop (i + 1) N ?s3"
    using lt iteration_run [OF fh inb] by (subst capture_loop.simps) (simp add: case_prod_beta)
  have "capture_loop (i + 1) N ?s3 = Some (Inl (OutOfBounds SAMPLE_COUNT))"
  proof (rule Suc.hyps(1))
    show "n = SAMPLE_COUNT - unat (i + 1)" using Suc.hyps(2) suc by simp
    show "\<forall>p. \<exists>q\<ge>p. pin_level ?s3 q" using Suc.prems(1) by (simp add: iterated_def)
    show "unat (i + 1) \<le> SAMPLE_COUNT" using inb suc by simp
    show "SAMPLE_COUNT < unat N" by (rule Suc.prems(3))
  qed
  with step show ?case by simp
qed

lemma capture_fast_overrun:
  assumes "\<forall>p. \<exists>q\<ge>p. pin_level s q" and "SAMPLE_COUNT < unat N"
  shows "capture_fast N s = Some (Inl (OutOfBounds SAMPLE_COUNT))"
proof -
  define s3 where "s3 = SPI_endTransaction (snd (frameNOP (SPI_beginTransaction s)))"
  have "pin_level s3 = pin_level s"
    by (simp add: s3_def nop_transaction_run)
  with assms(1) obtain k where "first_high (pin_level s3) (n_read s3) k"
    using first_high_ex by metis
  then have w: "wait_rvs s3 = Some (waited k s3)"
    by (rule wait_rvs_first_high)
  have "\<forall>p. \<exists>q\<ge>p. pin_level (armed k s) q"
    using assms(1) by (simp add: armed_run)
  then have "capture_loop 0 N (armed k s) = Some (Inl (OutOfBounds SAMPLE_COUNT))"
    using assms(2) by (intro capture_loop_overrun) simp_all
  then show ?thesis
    using w by (simp add: capture_fast_alt s3_def [symmetric] armed_def)
qed

lemma bench_ready: "\<forall>p. \<exists>q\<ge>p. pin_level bench q"
proof
  fix p :: nat
  have "p \<le> 2 * p + 1" "odd (2 * p + 1)" by simp_all
  then show "\<exists>q\<ge>p. pin_level bench q"
    unfolding bench_def by (intro exI [of _ "2 * p + 1"]) simp
qed

lemma n_exchanges_burst: "n_exchanges (burst_events m x ks) = length ks"
  by (induction ks arbitrary: x)
    (simp_all add: n_exchanges_simps n_exchanges_append n_exchanges_polls n_exchanges_frame)

lemma rx_bytes_append: "rx_bytes (xs @ ys) = rx_bytes xs @ rx_bytes ys"
  by (simp add: rx_bytes_def)

lemma rx_bytes_polls: "rx_bytes (polls k) = []"
  by (simp add: rx_bytes_def polls_def)

lemma rx_bytes_frame:
  "rx_bytes (frame_events b0 b1 b2 b3 m x) = [m x, m (x + 1), m (x + 2), m (x + 3)]"
  by (simp add: rx_bytes_def frame_events_def)

lemma words_of_burst:
  "words_of (rx_bytes (burst_events m x ks)) = map (\<lambda>j. rx_word m (x + 4 * j)) [0..<length ks]"
proof (induction ks arbitrary: x)
  case Nil
  then show ?case by (simp add: rx_bytes_def)
next
  case (Cons k ks)
  have "map (\<lambda>j. rx_word m (x + 4 * j)) [0..<length (k # ks)] =
      rx_word m x # map (\<lambda>j. rx_word m (x + 4 + 4 * j)) [0..<length ks]"
    by (simp add: upt_conv_Cons map_Suc_upt [symmetric] add.assoc del: upt_Suc)
  then show ?case
    by (simp add: rx_bytes_append rx_bytes_polls rx_bytes_frame rx_word_def Cons.IH del: upt_Suc)
qed

lemma adsxConfigureBasic_vRange:
  "adsxConfigureBasic (s\<lparr>vRange := vRange s AND 0xF\<rparr>) =
     map_option (\<lambda>t. t\<lparr>vRange := vRange s AND 0xF\<rparr>) (adsxConfigureBasic s)"
proof (cases "\<exists>k. first_high (pin_level s) (n_read s) k")
  case True
  then obtain k where k: "first_high (pin_level s) (n_read s) k"
    by blast
  then have "adsxConfigureBasic s = Some (configured k s)"
    by (auto simp: adsxConfigureBasic_Some_iff)
  moreover from k have "adsxConfigureBasic (s\<lparr>vRange := vRange s AND 0xF\<rparr>) =
      Some (configured k (s\<lparr>vRange := vRange s AND 0xF\<rparr>))"
    by (auto simp: adsxConfigureBasic_Some_iff)
  moreover have "configured k (s\<lparr>vRange := vRange s AND 0xF\<rparr>) =
      (configured k s)\<lparr>vRange := vRange s AND 0xF\<rparr>"
    by (rule hw.equality) (simp_all add: configured_def nibble_idem)
  ultimately show ?thesis
    by simp
next
  case False
  then have "adsxConfigureBasic s \<noteq> Some s'"
    "adsxConfigureBasic (s\<lparr>vRange := vRange s AND 0xF\<rparr>) \<noteq> Some s'" for s'
    by (auto simp: adsxConfigureBasic_Some_iff)
  then have "adsxConfigureBasic s = None" "adsxConfigureBasic (s\<lparr>vRange := vRange s AND 0xF\<rparr>) = None"
    by (simp_all add: option.split_sel_asm not_Some_eq [symmetric] del: not_Some_eq not_None_eq)
  then show ?thesis
    by simp
qed

subsection \<open>The conversion, range by range\<close>

text \<open>
  For each of the nine pairs that the range table can return: the positive and negative
  full scale, the step, and the voltage of the codes \<open>ADSX_CODE_MASK\<close> and 0, as
  binary32 values.
\<close>

lemma volts_bipolar_3x:
  "PFS (3) = 6442451 / 524288"
  "NFS (3) True = - (6442451 / 524288)"
  "LSB (3) True = 6442451 / 68719476736"
  "f32_add (NFS (3) True) (f32_mul 262143 (LSB (3) True)) = 3221201 / 262144"
  "f32_add (NFS (3) True) (f32_mul 0 (LSB (3) True)) = - (6442451 / 524288)"
proof -
  show p: "PFS (3) = 6442451 / 524288"
    by (simp add: PFS_def f32_mul_def VOLT_REF_eq f32_round_bins f32_eval)
  show n: "NFS (3) True = - (6442451 / 524288)"
    by (simp add: NFS_def p)
  have f: "FSR (3) True = 6442451 / 262144"
    by (simp add: FSR_def p n f32_sub_def f32_round_bins f32_eval)
  show l: "LSB (3) True = 6442451 / 68719476736"
    by (simp add: LSB_def f ADSX_BITS_def f32_div_def f32_round_bins f32_eval)
  have t: "f32_mul 262143 (LSB (3) True) = 12884853 / 524288"
    by (simp add: l f32_mul_def f32_round_bins f32_eval)
  show "f32_add (NFS (3) True) (f32_mul 262143 (LSB (3) True)) = 3221201 / 262144"
    by (simp add: n t f32_add_def f32_round_bins f32_eval)
  show "f32_add (NFS (3) True) (f32_mul 0 (LSB (3) True)) = - (6442451 / 524288)"
    by (simp add: n f32_mul_def f32_add_def f32_round_0 f32_round_bins f32_eval)
qed

lemma volts_bipolar_3x_ends:
  "f32_add (NFS (3) True) (f32_mul 0 (LSB (3) True)) = NFS (3) True \<and>
   f32_add (NFS (3) True) (f32_mul 262143 (LSB (3) True)) < PFS (3)"
  by (simp only: volts_bipolar_3x(4,5)) (simp add: volts_bipolar_3x(1,2))

lemma volts_bipolar_2p5x:
  "PFS (5 / 2) = 10737419 / 1048576"
  "NFS (5 / 2) True = - (10737419 / 1048576)"
  "LSB (5 / 2) True = 10737419 / 137438953472"
  "f32_add (NFS (5 / 2) True) (f32_mul 262143 (LSB (5 / 2) True)) = 10737337 / 1048576"
  "f32_add (NFS (5 / 2) True) (f32_mul 0 (LSB (5 / 2) True)) = - (10737419 / 1048576)"
proof -
  show p: "PFS (5 / 2) = 10737419 / 1048576"
    by (simp add: PFS_def f32_mul_def VOLT_REF_eq f32_round_bins f32_eval)
  show n: "NFS (5 / 2) True = - (10737419 / 1048576)"
    by (simp add: NFS_def p)
  have f: "FSR (5 / 2) True = 10737419 / 524288"
    by (simp add: FSR_def p n f32_sub_def f32_round_bins f32_eval)
  show l: "LSB (5 / 2) True = 10737419 / 137438953472"
    by (simp add: LSB_def f ADSX_BITS_def f32_div_def f32_round_bins f32_eval)
  have t: "f32_mul 262143 (LSB (5 / 2) True) = 5368689 / 262144"
    by (simp add: l f32_mul_def f32_round_bins f32_eval)
  show "f32_add (NFS (5 / 2) True) (f32_mul 262143 (LSB (5 / 2) True)) = 10737337 / 1048576"
    by (simp add: n t f32_add_def f32_round_bins f32_eval)
  show "f32_add (NFS (5 / 2) True) (f32_mul 0 (LSB (5 / 2) True)) = - (10737419 / 1048576)"
    by (simp add: n f32_mul_def f32_add_def f32_round_0 f32_round_bins f32_eval)
qed

lemma volts_bipolar_2p5x_ends:
  "f32_add (NFS (5 / 2) True) (f32_mul 0 (LSB (5 / 2) True)) = NFS (5 / 2) True \<and>
   f32_add (NFS (5 / 2) True) (f32_mul 262143 (LSB (5 / 2) True)) < PFS (5 / 2)"
  by (simp only: volts_bipolar_2p5x(4,5)) (simp add: volts_bipolar_2p5x(1,2))

lemma volts_bipolar_1p5x:
  "PFS (3 / 2) = 6442451 / 1048576"
  "NFS (3 / 2) True = - (6442451 / 1048576)"
  "LSB (3 / 2) True = 6442451 / 137438953472"
  "f32_add (NFS (3 / 2) True) (f32_mul 262143 (LSB (3 / 2) True)) = 3221201 / 524288"
  "f32_add (NFS (3 / 2) True) (f32_mul 0 (LSB (3 / 2) True)) = - (6442451 / 1048576)"
proof -
  show p: "PFS (3 / 2) = 6442451 / 1048576"
    by (simp add: PFS_def f32_mul_def VOLT_REF_eq f32_round_bins f32_eval)
  show n: "NFS (3 / 2) True = - (6442451 / 1048576)"
    by (simp add: NFS_def p)
  have f: "FSR (3 / 2) True = 6442451 / 524288"
    by (simp add: FSR_def p n f32_sub_def f32_round_bins f32_eval)
  show l: "LSB (3 / 2) True = 6442451 / 137438953472"
    by (simp add: LSB_def f ADSX_BITS_def f32_div_def f32_round_bins f32_eval)
  have t: "f32_mul 262143 (LSB (3 / 2) True) = 12884853 / 1048576"
    by (simp add: l f32_mul_def f32_round_bins f32_eval)
  show "f32_add (NFS (3 / 2) True) (f32_mul 262143 (LSB (3 / 2) True)) = 3221201 / 524288"
    by (simp add: n t f32_add_def f32_round_bins f32_eval)
  show "f32_add (NFS (3 / 2) True) (f32_mul 0 (LSB (3 / 2) True)) = - (6442451 / 1048576)"
    by (simp add: n f32_mul_def f32_add_def f32_round_0 f32_round_bins f32_eval)
qed

lemma volts_bipolar_1p5x_ends:
  "f32_add (NFS (3 / 2) True) (f32_mul 0 (LSB (3 / 2) True)) = NFS (3 / 2) True \<and>
   f32_add (NFS (3 / 2) True) (f32_mul 262143 (LSB (3 / 2) True)) < PFS (3 / 2)"
  by (simp only: volts_bipolar_1p5x(4,5)) (simp add: volts_bipolar_1p5x(1,2))

lemma volts_bipolar_1p25x:
  "PFS (5 / 4) = 10737419 / 2097152"
  "NFS (5 / 4) True = - (10737419 / 2097152)"
  "LSB (5 / 4) True = 10737419 / 274877906944"
  "f32_add (NFS (5 / 4) True) (f32_mul 262143 (LSB (5 / 4) True)) = 10737337 / 2097152"
  "f32_add (NFS (5 / 4) True) (f32_mul 0 (LSB (5 / 4) True)) = - (10737419 / 2097152)"
proof -
  show p: "PFS (5 / 4) = 10737419 / 2097152"
    by (simp add: PFS_def f32_mul_def VOLT_REF_eq f32_round_bins f32_eval)
  show n: "NFS (5 / 4) True = - (10737419 / 2097152)"
    by (simp add: NFS_def p)
  have f: "FSR (5 / 4) True = 10737419 / 1048576"
    by (simp add: FSR_def p n f32_sub_def f32_round_bins f32_eval)
  show l: "LSB (5 / 4) True = 10737419 / 274877906944"
    by (simp add: LSB_def f ADSX_BITS_def f32_div_def f32_round_bins f32_eval)
  have t: "f32_mul 262143 (LSB (5 / 4) True) = 5368689 / 524288"
    by (simp add: l f32_mul_def f32_round_bins f32_eval)
  show "f32_add (NFS (5 / 4) True) (f32_mul 262143 (LSB (5 / 4) True)) = 10737337 / 2097152"
    by (simp add: n t f32_add_def f32_round_bins f32_eval)
  show "f32_add (NFS (5 / 4) True) (f32_mul 0 (LSB (5 / 4) True)) = - (10737419 / 2097152)"
    by (simp add: n f32_mul_def f32_add_def f32_round_0 f32_round_bins f32_eval)
qed

lemma volts_bipolar_1p25x_ends:
  "f32_add (NFS (5 / 4) True) (f32_mul 0 (LSB (5 / 4) True)) = NFS (5 / 4) True \<and>
   f32_add (NFS (5 / 4) True) (f32_mul 262143 (LSB (5 / 4) True)) < PFS (5 / 4)"
  by (simp only: volts_bipolar_1p25x(4,5)) (simp add: volts_bipolar_1p25x(1,2))

lemma volts_bipolar_0p625x:
  "PFS (5 / 8) = 10737419 / 4194304"
  "NFS (5 / 8) True = - (10737419 / 4194304)"
  "LSB (5 / 8) True = 10737419 / 549755813888"
  "f32_add (NFS (5 / 8) True) (f32_mul 262143 (LSB (5 / 8) True)) = 10737337 / 4194304"
  "f32_add (NFS (5 / 8) True) (f32_mul 0 (LSB (5 / 8) True)) = - (10737419 / 4194304)"
proof -
  show p: "PFS (5 / 8) = 10737419 / 4194304"
    by (simp add: PFS_def f32_mul_def VOLT_REF_eq f32_round_bins f32_eval)
  show n: "NFS (5 / 8) True = - (10737419 / 4194304)"
    by (simp add: NFS_def p)
  have f: "FSR (5 / 8) True = 10737419 / 2097152"
    by (simp add: FSR_def p n f32_sub_def f32_round_bins f32_eval)
  show l: "LSB (5 / 8) True = 10737419 / 549755813888"
    by (simp add: LSB_def f ADSX_BITS_def f32_div_def f32_round_bins f32_eval)
  have t: "f32_mul 262143 (LSB (5 / 8) True) = 5368689 / 1048576"
    by (simp add: l f32_mul_def f32_round_bins f32_eval)
  show "f32_add (NFS (5 / 8) True) (f32_mul 262143 (LSB (5 / 8) True)) = 10737337 / 4194304"
    by (simp add: n t f32_add_def f32_round_bins f32_eval)
  show "f32_add (NFS (5 / 8) True) (f32_mul 0 (LSB (5 / 8) True)) = - (10737419 / 4194304)"
    by (simp add: n f32_mul_def f32_add_def f32_round_0 f32_round_bins f32_eval)
qed

lemma volts_bipolar_0p625x_ends:
  "f32_add (NFS (5 / 8) True) (f32_mul 0 (LSB (5 / 8) True)) = NFS (5 / 8) True \<and>
   f32_add (NFS (5 / 8) True) (f32_mul 262143 (LSB (5 / 8) True)) < PFS (5 / 8)"
  by (simp only: volts_bipolar_0p625x(4,5)) (simp add: volts_bipolar_0p625x(1,2))

lemma volts_unipolar_3x:
  "PFS (3) = 6442451 / 524288"
  "NFS (3) False = 0"
  "LSB (3) False = 6442451 / 137438953472"
  "f32_add (NFS (3) False) (f32_mul 262143 (LSB (3) False)) = 12884853 / 1048576"
  "f32_add (NFS (3) False) (f32_mul 0 (LSB (3) False)) = 0"
proof -
  show p: "PFS (3) = 6442451 / 524288"
    by (simp add: PFS_def f32_mul_def VOLT_REF_eq f32_round_bins f32_eval)
  show n: "NFS (3) False = 0"
    by (simp add: NFS_def p)
  have f: "FSR (3) False = 6442451 / 524288"
    by (simp add: FSR_def p n f32_sub_def f32_round_bins f32_eval)
  show l: "LSB (3) False = 6442451 / 137438953472"
    by (simp add: LSB_def f ADSX_BITS_def f32_div_def f32_round_bins f32_eval)
  have t: "f32_mul 262143 (LSB (3) False) = 12884853 / 1048576"
    by (simp add: l f32_mul_def f32_round_bins f32_eval)
  show "f32_add (NFS (3) False) (f32_mul 262143 (LSB (3) False)) = 12884853 / 1048576"
    by (simp add: n t f32_add_def f32_round_bins f32_eval)
  show "f32_add (NFS (3) False) (f32_mul 0 (LSB (3) False)) = 0"
    by (simp add: n f32_mul_def f32_add_def f32_round_0 f32_round_bins f32_eval)
qed

lemma volts_unipolar_3x_ends:
  "f32_add (NFS (3) False) (f32_mul 0 (LSB (3) False)) = NFS (3) False \<and>
   f32_add (NFS (3) False) (f32_mul 262143 (LSB (3) False)) < PFS (3)"
  by (simp only: volts_unipolar_3x(4,5)) (simp add: volts_unipolar_3x(1,2))

lemma volts_unipolar_2p5x:
  "PFS (5 / 2) = 10737419 / 1048576"
  "NFS (5 / 2) False = 0"
  "LSB (5 / 2) False = 10737419 / 274877906944"
  "f32_add (NFS (5 / 2) False) (f32_mul 262143 (LSB (5 / 2) False)) = 5368689 / 524288"
  "f32_add (NFS (5 / 2) False) (f32_mul 0 (LSB (5 / 2) False)) = 0"
proof -
  show p: "PFS (5 / 2) = 10737419 / 1048576"
    by (simp add: PFS_def f32_mul_def VOLT_REF_eq f32_round_bins f32_eval)
  show n: "NFS (5 / 2) False = 0"
    by (simp add: NFS_def p)
  have f: "FSR (5 / 2) False = 10737419 / 1048576"
    by (simp add: FSR_def p n f32_sub_def f32_round_bins f32_eval)
  show l: "LSB (5 / 2) False = 10737419 / 274877906944"
    by (simp add: LSB_def f ADSX_BITS_def f32_div_def f32_round_bins f32_eval)
  have t: "f32_mul 262143 (LSB (5 / 2) False) = 5368689 / 524288"
    by (simp add: l f32_mul_def f32_round_bins f32_eval)
  show "f32_add (NFS (5 / 2) False) (f32_mul 262143 (LSB (5 / 2) False)) = 5368689 / 524288"
    by (simp add: n t f32_add_def f32_round_bins f32_eval)
  show "f32_add (NFS (5 / 2) False) (f32_mul 0 (LSB (5 / 2) False)) = 0"
    by (simp add: n f32_mul_def f32_add_def f32_round_0 f32_round_bins f32_eval)
qed

lemma volts_unipolar_2p5x_ends:
  "f32_add (NFS (5 / 2) False) (f32_mul 0 (LSB (5 / 2) False)) = NFS (5 / 2) False \<and>
   f32_add (NFS (5 / 2) False) (f32_mul 262143 (LSB (5 / 2) False)) < PFS (5 / 2)"
  by (simp only: volts_unipolar_2p5x(4,5)) (simp add: volts_unipolar_2p5x(1,2))

lemma volts_unipolar_1p5x:
  "PFS (3 / 2) = 6442451 / 1048576"
  "NFS (3 / 2) False = 0"
  "LSB (3 / 2) False = 6442451 / 274877906944"
  "f32_add (NFS (3 / 2) False) (f32_mul 262143 (LSB (3 / 2) False)) = 12884853 / 2097152"
  "f32_add (NFS (3 / 2) False) (f32_mul 0 (LSB (3 / 2) False)) = 0"
proof -
  show p: "PFS (3 / 2) = 6442451 / 1048576"
    by (simp add: PFS_def f32_mul_def VOLT_REF_eq f32_round_bins f32_eval)
  show n: "NFS (3 / 2) False = 0"
    by (simp add: NFS_def p)
  have f: "FSR (3 / 2) False = 6442451 / 1048576"
    by (simp add: FSR_def p n f32_sub_def f32_round_bins f32_eval)
  show l: "LSB (3 / 2) False = 6442451 / 274877906944"
    by (simp add: LSB_def f ADSX_BITS_def f32_div_def f32_round_bins f32_eval)
  have t: "f32_mul 262143 (LSB (3 / 2) False) = 12884853 / 2097152"
    by (simp add: l f32_mul_def f32_round_bins f32_eval)
  show "f32_add (NFS (3 / 2) False) (f32_mul 262143 (LSB (3 / 2) False)) = 12884853 / 2097152"
    by (simp add: n t f32_add_def f32_round_bins f32_eval)
  show "f32_add (NFS (3 / 2) False) (f32_mul 0 (LSB (3 / 2) False)) = 0"
    by (simp add: n f32_mul_def f32_add_def f32_round_0 f32_round_bins f32_eval)
qed

lemma volts_unipolar_1p5x_ends:
  "f32_add (NFS (3 / 2) False) (f32_mul 0 (LSB (3 / 2) False)) = NFS (3 / 2) False \<and>
   f32_add (NFS (3 / 2) False) (f32_mul 262143 (LSB (3 / 2) False)) < PFS (3 / 2)"
  by (simp only: volts_unipolar_1p5x(4,5)) (simp add: volts_unipolar_1p5x(1,2))

lemma volts_unipolar_1p25x:
  "PFS (5 / 4) = 10737419 / 2097152"
  "NFS (5 / 4) False = 0"
  "LSB (5 / 4) False = 10737419 / 549755813888"
  "f32_add (NFS (5 / 4) False) (f32_mul 262143 (LSB (5 / 4) False)) = 5368689 / 1048576"
  "f32_add (NFS (5 / 4) False) (f32_mul 0 (LSB (5 / 4) False)) = 0"
proof -
  show p: "PFS (5 / 4) = 10737419 / 2097152"
    by (simp add: PFS_def f32_mul_def VOLT_REF_eq f32_round_bins f32_eval)
  show n: "NFS (5 / 4) False = 0"
    by (simp add: NFS_def p)
  have f: "FSR (5 / 4) False = 10737419 / 2097152"
    by (simp add: FSR_def p n f32_sub_def f32_round_bins f32_eval)
  show l: "LSB (5 / 4) False = 10737419 / 549755813888"
    by (simp add: LSB_def f ADSX_BITS_def f32_div_def f32_round_bins f32_eval)
  have t: "f32_mul 262143 (LSB (5 / 4) False) = 5368689 / 1048576"
    by (simp add: l f32_mul_def f32_round_bins f32_eval)
  show "f32_add (NFS (5 / 4) False) (f32_mul 262143 (LSB (5 / 4) False)) = 5368689 / 1048576"
    by (simp add: n t f32_add_def f32_round_bins f32_eval)
  show "f32_add (NFS (5 / 4) False) (f32_mul 0 (LSB (5 / 4) False)) = 0"
    by (simp add: n f32_mul_def f32_add_def f32_round_0 f32_round_bins f32_eval)
qed

lemma volts_unipolar_1p25x_ends:
  "f32_add (NFS (5 / 4) False) (f32_mul 0 (LSB (5 / 4) False)) = NFS (5 / 4) False \<and>
   f32_add (NFS (5 / 4) False) (f32_mul 262143 (LSB (5 / 4) False)) < PFS (5 / 4)"
  by (simp only: volts_unipolar_1p25x(4,5)) (simp add: volts_unipolar_1p25x(1,2))

lemma round_even_of_int: "round_even (of_int z) = z"
  by (simp add: round_even_def)

lemma pow2_neg: "pow2 (- int d) = 1 / 2 ^ d"
  by (cases d) (simp_all add: pow2_def nat_add_distrib)

lemma pow2_nat: "pow2 (int w) = 2 ^ w"
  by (simp add: pow2_def)

lemma f32_round_nat_exact:
  assumes "n < 2 ^ 24"
  shows "f32_round (of_nat n) = of_nat n"
proof (cases "n = 0")
  case True
  then show ?thesis by (simp add: f32_round_0)
next
  case False
  then have pos: "0 < n" by simp
  define w where "w = floorlog 2 n - 1"
  from pos have fl: "0 < floorlog 2 n"
    by (simp add: floorlog_def)
  from floorlog_bounds [OF pos, of 2] fl have lo: "2 ^ w \<le> n" and hi: "n < 2 ^ Suc w"
    by (simp_all add: w_def)
  from lo assms have "(2::nat) ^ w < 2 ^ 24"
    by (rule le_less_trans)
  have "(1::nat) < 2"
    by simp
  from power_strict_increasing_iff [OF this, of w 24] \<open>(2::nat) ^ w < 2 ^ 24\<close>
  have w: "w < 24"
    by blast
  define d where "d = 23 - w"
  from w have e: "int w - 23 = - int d"
    by (simp add: d_def)
  have "rat_of_nat (2 ^ w) \<le> rat_of_nat n"
    using lo by (simp only: of_nat_le_iff)
  then have "pow2 (int w) \<le> \<bar>rat_of_nat n\<bar>"
    by (simp add: pow2_nat)
  moreover have "\<bar>rat_of_nat n\<bar> < pow2 (int w + 1)"
  proof -
    have "pow2 (int w + 1) = 2 * 2 ^ w"
      by (simp add: pow2_def nat_add_distrib)
    moreover have "rat_of_nat n < rat_of_nat (2 ^ Suc w)"
      using hi by (simp only: of_nat_less_iff)
    ultimately show ?thesis
      by simp
  qed
  ultimately have "f32_round (of_nat n) =
      of_int (round_even (of_nat n / pow2 (int w - 23))) * pow2 (int w - 23)"
    by (rule f32_round_at) simp
  also have "rat_of_nat n / pow2 (int w - 23) = of_int (int n * 2 ^ d)"
    by (simp add: e pow2_neg)
  also have "of_int (round_even (of_int (int n * 2 ^ d))) * pow2 (int w - 23) = of_nat n"
    unfolding round_even_of_int by (simp add: e pow2_neg)
  finally show ?thesis .
qed

lemma f32_of_u32_exact: "unat w < 2 ^ 24 \<Longrightarrow> f32_of_u32 w = of_nat (unat w)"
  unfolding f32_of_u32_def by (rule f32_round_nat_exact)

lemma code_exact: "code \<le> ADSX_CODE_MASK \<Longrightarrow> f32_of_u32 code = of_nat (unat code)"
proof -
  assume "code \<le> ADSX_CODE_MASK"
  then have "unat code \<le> 262143"
    by (simp add: ADSX_CODE_MASK_def ADSX_BITS_def word_le_nat_alt)
  then have "unat code < 2 ^ 24"
    by simp
  then show ?thesis
    by (rule f32_of_u32_exact)
qed

lemma two18: "f32_of_u32 (push_bit ADSX_BITS 1) = 2 ^ ADSX_BITS"
proof -
  have "unat (push_bit ADSX_BITS 1 :: u32) = 2 ^ ADSX_BITS"
    by (simp add: ADSX_BITS_def)
  moreover have "(2::nat) ^ ADSX_BITS < 2 ^ 24"
    by (simp add: ADSX_BITS_def)
  ultimately have "f32_of_u32 (push_bit ADSX_BITS 1) = of_nat (unat (push_bit ADSX_BITS 1 :: u32))"
    by (intro f32_of_u32_exact) simp
  then show ?thesis
    by (simp add: ADSX_BITS_def)
qed

lemma two18': "f32_of_u32 (2 ^ ADSX_BITS) = 2 ^ ADSX_BITS"
  using two18 by simp

lemma adsxCodeToVolts_formula:
  assumes "adsxRangeMultiplier (vRange s) = (mult, bipolar)"
  shows "adsxCodeToVolts codeN s =
    f32_add (NFS mult bipolar)
      (f32_mul (f32_of_u32 (if codeN > ADSX_CODE_MASK then ADSX_CODE_MASK else codeN))
         (LSB mult bipolar))"
  using assms
  by (simp add: adsxCodeToVolts_def Let_def two18' PFS_def NFS_def FSR_def LSB_def f32_neg_def)

lemma mask_unat: "unat ADSX_CODE_MASK = 262143"
  by (simp add: ADSX_CODE_MASK_def ADSX_BITS_def)

lemma range_tables:
  assumes "adsxRangeMultiplier c = (m, b)"
  shows "f32_add (NFS m b) (f32_mul 0 (LSB m b)) = NFS m b \<and>
         f32_add (NFS m b) (f32_mul 262143 (LSB m b)) < PFS m"
proof -
  from range_cases [of c] assms have
    "(m, b) \<in> {(3, True), (5 / 2, True), (3 / 2, True), (5 / 4, True), (5 / 8, True),
       (3, False), (5 / 2, False), (3 / 2, False), (5 / 4, False)}"
    by simp
  then consider
    (bipolar_3x) "m = 3" "b = True" |
    (bipolar_2p5x) "m = 5 / 2" "b = True" |
    (bipolar_1p5x) "m = 3 / 2" "b = True" |
    (bipolar_1p25x) "m = 5 / 4" "b = True" |
    (bipolar_0p625x) "m = 5 / 8" "b = True" |
    (unipolar_3x) "m = 3" "b = False" |
    (unipolar_2p5x) "m = 5 / 2" "b = False" |
    (unipolar_1p5x) "m = 3 / 2" "b = False" |
    (unipolar_1p25x) "m = 5 / 4" "b = False"
    by blast
  then show ?thesis
  proof cases
    case bipolar_3x
    show ?thesis
      unfolding bipolar_3x by (rule volts_bipolar_3x_ends)
  next
    case bipolar_2p5x
    show ?thesis
      unfolding bipolar_2p5x by (rule volts_bipolar_2p5x_ends)
  next
    case bipolar_1p5x
    show ?thesis
      unfolding bipolar_1p5x by (rule volts_bipolar_1p5x_ends)
  next
    case bipolar_1p25x
    show ?thesis
      unfolding bipolar_1p25x by (rule volts_bipolar_1p25x_ends)
  next
    case bipolar_0p625x
    show ?thesis
      unfolding bipolar_0p625x by (rule volts_bipolar_0p625x_ends)
  next
    case unipolar_3x
    show ?thesis
      unfolding unipolar_3x by (rule volts_unipolar_3x_ends)
  next
    case unipolar_2p5x
    show ?thesis
      unfolding unipolar_2p5x by (rule volts_unipolar_2p5x_ends)
  next
    case unipolar_1p5x
    show ?thesis
      unfolding unipolar_1p5x by (rule volts_unipolar_1p5x_ends)
  next
    case unipolar_1p25x
    show ?thesis
      unfolding unipolar_1p25x by (rule volts_unipolar_1p25x_ends)
  qed
qed

section \<open>The register protocol\<close>

text \<open>
  C8. \<open>xfer32\<close> pulls chip select LOW, transfers \<open>b0\<close>, \<open>b1\<close>, \<open>b2\<close>, \<open>b3\<close> in this
  order, releases chip select, and returns the four received bytes packed big-endian:
  the result is \<open>(r0 << 24) | (r1 << 16) | (r2 << 8) | r3\<close>, so that its bytes from the
  top are \<open>r0\<close>, \<open>r1\<close>, \<open>r2\<close>, \<open>r3\<close>. \<open>writeRegHWord addr data\<close> issues exactly
  the frame \<open>0xD0, addr, data >> 8, data & 0xFF\<close> and keeps nothing of the reply.
\<close>

theorem xfer32_frame:
  "xfer32 b0 b1 b2 b3 s =
     (pack32 (miso s (n_xfer s)) (miso s (n_xfer s + 1)) (miso s (n_xfer s + 2))
        (miso s (n_xfer s + 3)),
      s\<lparr>n_xfer := n_xfer s + 4,
        trace := trace s @
          [DigitalWrite PIN_CS LOW,
           SpiTransfer b0 (miso s (n_xfer s)),
           SpiTransfer b1 (miso s (n_xfer s + 1)),
           SpiTransfer b2 (miso s (n_xfer s + 2)),
           SpiTransfer b3 (miso s (n_xfer s + 3)),
           DigitalWrite PIN_CS HIGH]\<rparr>) \<and>
   pack32 r0 r1 r2 r3 =
     push_bit 24 (ucast r0) OR push_bit 16 (ucast r1) OR push_bit 8 (ucast r2) OR ucast r3 \<and>
   ucast (drop_bit 24 (pack32 r0 r1 r2 r3)) = r0 \<and>
   ucast (drop_bit 16 (pack32 r0 r1 r2 r3)) = r1 \<and>
   ucast (drop_bit 8 (pack32 r0 r1 r2 r3)) = r2 \<and>
   ucast (pack32 r0 r1 r2 r3) = r3 \<and>
   writeRegHWord addr data s =
     s\<lparr>n_xfer := n_xfer s + 4,
       trace := trace s @
         [DigitalWrite PIN_CS LOW,
          SpiTransfer 0xD0 (miso s (n_xfer s)),
          SpiTransfer addr (miso s (n_xfer s + 1)),
          SpiTransfer (ucast (drop_bit 8 data)) (miso s (n_xfer s + 2)),
          SpiTransfer (ucast (data AND 0xFF)) (miso s (n_xfer s + 3)),
          DigitalWrite PIN_CS HIGH]\<rparr>"
proof -
  have "data AND 0xFF = take_bit 8 data"
    by (simp add: take_bit_eq_mask mask_eq_exp_minus_1)
  then have low: "(ucast (data AND 0xFF) :: u8) = ucast data"
    by (intro bit_word_eqI) (auto simp: bit_simps)
  show ?thesis
    by (simp add: xfer32_run writeRegHWord_def frame_events_def rx_word_def pack32_bytes low)
      (simp add: pack32_def)
qed

section \<open>The range table\<close>

text \<open>
  C4. \<open>adsxRangeMultiplier\<close> has a value for every selector: the nine defined codes
  give the documented multiplier and polarity (bipolar 3.0, 2.5, 1.5, 1.25, 0.625 for
  0x0 to 0x4, unipolar 3.0, 2.5, 1.5, 1.25 for 0x8 to 0xB), and each of the seven other
  4-bit values 0x5, 0x6, 0x7, 0xC, 0xD, 0xE, 0xF gives 1.25, unipolar.
\<close>

theorem adsxRangeMultiplier_table:
  "adsxRangeMultiplier ADSX_RANGE_BIPOLAR_3X = (3, True) \<and>
   adsxRangeMultiplier ADSX_RANGE_BIPOLAR_2P5X = (5 / 2, True) \<and>
   adsxRangeMultiplier ADSX_RANGE_BIPOLAR_1P5X = (3 / 2, True) \<and>
   adsxRangeMultiplier ADSX_RANGE_BIPOLAR_1P25X = (5 / 4, True) \<and>
   adsxRangeMultiplier ADSX_RANGE_BIPOLAR_0P625X = (5 / 8, True) \<and>
   adsxRangeMultiplier ADSX_RANGE_UNIPOLAR_3X = (3, False) \<and>
   adsxRangeMultiplier ADSX_RANGE_UNIPOLAR_2P5X = (5 / 2, False) \<and>
   adsxRangeMultiplier ADSX_RANGE_UNIPOLAR_1P5X = (3 / 2, False) \<and>
   adsxRangeMultiplier ADSX_RANGE_UNIPOLAR_1P25X = (5 / 4, False) \<and>
   adsxRangeMultiplier 0x0 = (3, True) \<and>
   adsxRangeMultiplier 0x1 = (5 / 2, True) \<and>
   adsxRangeMultiplier 0x2 = (3 / 2, True) \<and>
   adsxRangeMultiplier 0x3 = (5 / 4, True) \<and>
   adsxRangeMultiplier 0x4 = (5 / 8, True) \<and>
   adsxRangeMultiplier 0x8 = (3, False) \<and>
   adsxRangeMultiplier 0x9 = (5 / 2, False) \<and>
   adsxRangeMultiplier 0xA = (3 / 2, False) \<and>
   adsxRangeMultiplier 0xB = (5 / 4, False) \<and>
   adsxRangeMultiplier 0x5 = (5 / 4, False) \<and>
   adsxRangeMultiplier 0x6 = (5 / 4, False) \<and>
   adsxRangeMultiplier 0x7 = (5 / 4, False) \<and>
   adsxRangeMultiplier 0xC = (5 / 4, False) \<and>
   adsxRangeMultiplier 0xD = (5 / 4, False) \<and>
   adsxRangeMultiplier 0xE = (5 / 4, False) \<and>
   adsxRangeMultiplier 0xF = (5 / 4, False)"
  by (simp add: adsxRangeMultiplier_def Let_def ADSX_RANGE_BIPOLAR_3X_def
      ADSX_RANGE_BIPOLAR_2P5X_def ADSX_RANGE_BIPOLAR_1P5X_def ADSX_RANGE_BIPOLAR_1P25X_def
      ADSX_RANGE_BIPOLAR_0P625X_def ADSX_RANGE_UNIPOLAR_3X_def ADSX_RANGE_UNIPOLAR_2P5X_def
      ADSX_RANGE_UNIPOLAR_1P5X_def ADSX_RANGE_UNIPOLAR_1P25X_def)

section \<open>Decoding\<close>

text \<open>
  C3. In the 18-bit build the shift is 14 and the mask is 0x3FFFF, and for every code
  from 0 to 0x3FFFF, shifting the raw frame \<open>code << 14\<close> right by 14 and masking it
  with 0x3FFFF gives back the code.
\<close>

theorem decode_roundtrip:
  assumes "code \<le> 0x3FFFF"
  shows "ADSX_CODE_SHIFT = 14 \<and> ADSX_CODE_MASK = 0x3FFFF \<and>
         drop_bit ADSX_CODE_SHIFT (push_bit 14 code) AND ADSX_CODE_MASK = code \<and>
         decode (push_bit 14 code) = code"
proof -
  from assms have "code \<le> ADSX_CODE_MASK"
    by (simp add: ADSX_CODE_MASK_def ADSX_BITS_def)
  then have t: "take_bit 18 code = code"
    by (rule le_mask_take)
  have "decode (push_bit 14 code) = take_bit 18 (drop_bit 14 (push_bit 14 code))"
    by (rule decode_eq)
  also have "\<dots> = take_bit 18 code"
    by (rule bit_word_eqI) (auto simp: bit_simps)
  finally have "decode (push_bit 14 code) = code"
    using t by simp
  then show ?thesis
    by (simp add: decode_def ADSX_CODE_SHIFT_def ADSX_CODE_MASK_def ADSX_BITS_def)
qed

theorem decode_roundtrip_witness:
  "(0x2ABCD :: u32) \<le> 0x3FFFF \<and> decode (push_bit 14 0x2ABCD) = 0x2ABCD \<and>
   decode 0xAAF34000 = 0x2ABCD"
proof -
  have h: "(0x2ABCD :: u32) \<le> 0x3FFFF"
    by simp
  have "decode (push_bit 14 0x2ABCD) = 0x2ABCD"
    using decode_roundtrip [OF h] by blast
  moreover have "push_bit 14 (0x2ABCD :: u32) = 0xAAF34000"
    by simp
  ultimately show ?thesis
    using h by simp
qed

text \<open>
  C7. When the buffer holds \<open>N\<close> entries, \<open>decode_samples_in_place N\<close> replaces each of
  the first \<open>N\<close> entries by its old value shifted right by \<open>ADSX_CODE_SHIFT\<close> and
  masked with \<open>ADSX_CODE_MASK\<close>, which is at most the mask; the entries from \<open>N\<close> on
  are left alone. Two raw frames whose bits from \<open>ADSX_CODE_SHIFT\<close> up to
  \<open>ADSX_CODE_SHIFT + ADSX_BITS\<close> agree decode to the same code.
\<close>

theorem decode_samples_in_place_codes:
  assumes "unat N \<le> SAMPLE_COUNT"
  shows "\<exists>s'. decode_samples_in_place N s = Inr s' \<and>
           (\<forall>i<unat N. samples s' i = drop_bit ADSX_CODE_SHIFT (samples s i) AND ADSX_CODE_MASK \<and>
                        samples s' i \<le> ADSX_CODE_MASK) \<and>
           (\<forall>i\<ge>unat N. samples s' i = samples s i) \<and>
           (\<forall>a b. (\<forall>j. ADSX_CODE_SHIFT \<le> j \<and> j < ADSX_CODE_SHIFT + ADSX_BITS \<longrightarrow> bit a j = bit b j)
                  \<longrightarrow> decode a = decode b)"
proof -
  have run: "decode_samples_in_place N s = Inr (decoded 0 (unat N) s)"
    using assms by (simp add: decode_samples_in_place_def decode_loop_run)
  have field: "decode a = decode b"
    if "\<forall>j. ADSX_CODE_SHIFT \<le> j \<and> j < ADSX_CODE_SHIFT + ADSX_BITS \<longrightarrow> bit a j = bit b j" for a b
    unfolding decode_eq using that
    by (intro bit_word_eqI) (auto simp: bit_simps ADSX_CODE_SHIFT_def ADSX_BITS_def)
  have "\<forall>i<unat N. samples (decoded 0 (unat N) s) i = drop_bit ADSX_CODE_SHIFT (samples s i) AND ADSX_CODE_MASK
      \<and> samples (decoded 0 (unat N) s) i \<le> ADSX_CODE_MASK"
    by (simp add: decoded_def decode_def word_and_le1)
  moreover have "\<forall>i\<ge>unat N. samples (decoded 0 (unat N) s) i = samples s i"
    by (simp add: decoded_def)
  ultimately show ?thesis
    using run field by blast
qed

theorem decode_samples_in_place_codes_witness:
  "unat (2 :: u32) \<le> SAMPLE_COUNT \<and>
   (\<exists>s'. decode_samples_in_place 2 (bench\<lparr>samples := (\<lambda>_. 0xAAF37FFF)\<rparr>) = Inr s' \<and>
         samples s' 0 = 0x2ABCD \<and> samples s' 1 = 0x2ABCD \<and> samples s' 2 = 0xAAF37FFF) \<and>
   decode (push_bit 14 0x2ABCD) = decode (push_bit 14 0x2ABCD OR mask 14)"
proof -
  let ?s = "bench\<lparr>samples := (\<lambda>_. 0xAAF37FFF)\<rparr>"
  have n: "unat (2 :: u32) \<le> SAMPLE_COUNT"
    by (simp add: SAMPLE_COUNT_def)
  from decode_samples_in_place_codes [OF n, of ?s] obtain s' where
    run: "decode_samples_in_place 2 ?s = Inr s'"
    and lo: "\<forall>i<unat (2 :: u32). samples s' i = drop_bit ADSX_CODE_SHIFT (samples ?s i) AND ADSX_CODE_MASK
             \<and> samples s' i \<le> ADSX_CODE_MASK"
    and hi: "\<forall>i\<ge>unat (2 :: u32). samples s' i = samples ?s i"
    and field: "\<forall>a b. (\<forall>j. ADSX_CODE_SHIFT \<le> j \<and> j < ADSX_CODE_SHIFT + ADSX_BITS \<longrightarrow> bit a j = bit b j)
                  \<longrightarrow> decode a = decode b"
    by blast
  from lo have "samples s' 0 = 0x2ABCD" "samples s' 1 = 0x2ABCD"
    by (simp_all add: ADSX_CODE_SHIFT_def ADSX_CODE_MASK_def ADSX_BITS_def)
  moreover from hi have "samples s' 2 = 0xAAF37FFF"
    by simp
  moreover have "\<forall>j. ADSX_CODE_SHIFT \<le> j \<and> j < ADSX_CODE_SHIFT + ADSX_BITS \<longrightarrow>
      bit (push_bit 14 0x2ABCD :: u32) j = bit (push_bit 14 0x2ABCD OR mask 14 :: u32) j"
    by (auto simp: bit_simps ADSX_CODE_SHIFT_def)
  with field have "decode (push_bit 14 0x2ABCD) = decode (push_bit 14 0x2ABCD OR mask 14)"
    by blast
  ultimately show ?thesis
    using n run by blast
qed

section \<open>Configuration\<close>

text \<open>
  C5. \<open>adsxConfigureBasic\<close> returns exactly when the ready pin reads HIGH after some
  number \<open>k\<close> of LOW reads, and then, whatever \<open>k\<close> is, it has performed exactly three
  SPI exchanges in this order: the write-register frame to \<open>ADSX_REG_RANGE_SEL\<close> (0x14)
  whose payload is \<open>ADSX_INTREF_ENABLE\<close> OR-ed with the low four bits of \<open>vRange\<close>, a
  no-op frame, then the \<open>k + 1\<close> reads of the ready pin, and one more no-op frame whose
  reply is dropped.
\<close>

theorem adsxConfigureBasic_exchanges:
  "(adsxConfigureBasic s = Some s' \<longleftrightarrow>
      (\<exists>k. first_high (pin_level s) (n_read s) k \<and>
           s' = s\<lparr>n_xfer := n_xfer s + 12,
                  n_read := n_read s + k + 1,
                  trace := trace s @
                    [SpiBeginTransaction] @
                    frame_events 0xD0 ADSX_REG_RANGE_SEL
                      (ucast (drop_bit 8 (ADSX_INTREF_ENABLE OR (vRange s AND 0x0F))))
                      (ucast (ADSX_INTREF_ENABLE OR (vRange s AND 0x0F))) (miso s) (n_xfer s) @
                    frame_events 0 0 0 0 (miso s) (n_xfer s + 4) @
                    [SpiEndTransaction] @
                    polls k @
                    [SpiBeginTransaction] @
                    frame_events 0 0 0 0 (miso s) (n_xfer s + 8) @
                    [SpiEndTransaction]\<rparr>)) \<and>
   (adsxConfigureBasic s = Some s' \<longrightarrow> n_exchanges (trace s') = n_exchanges (trace s) + 3)"
proof -
  have "adsxConfigureBasic s = Some s' \<longrightarrow> n_exchanges (trace s') = n_exchanges (trace s) + 3"
    using n_exchanges_configured by (auto simp: adsxConfigureBasic_Some_iff)
  then show ?thesis
    using adsxConfigureBasic_Some_iff [of s s'] unfolding configured_def by blast
qed

theorem adsxConfigureBasic_exchanges_witness:
  "first_high (pin_level bench) (n_read bench) 1 \<and>
   (\<exists>s'. adsxConfigureBasic bench = Some s' \<and> n_exchanges (trace s') = 3 \<and>
      trace s' =
        [SpiBeginTransaction,
         DigitalWrite 10 False, SpiTransfer 0xD0 0, SpiTransfer 0x14 1, SpiTransfer 0 2,
         SpiTransfer 1 3, DigitalWrite 10 True,
         DigitalWrite 10 False, SpiTransfer 0 4, SpiTransfer 0 5, SpiTransfer 0 6,
         SpiTransfer 0 7, DigitalWrite 10 True,
         SpiEndTransaction,
         DigitalRead 4 False, DigitalRead 4 True,
         SpiBeginTransaction,
         DigitalWrite 10 False, SpiTransfer 0 8, SpiTransfer 0 9, SpiTransfer 0 10,
         SpiTransfer 0 11, DigitalWrite 10 True,
         SpiEndTransaction])"
proof -
  have fh: "first_high (pin_level bench) (n_read bench) 1"
    by (simp add: first_high_def bench_def)
  define s' where "s' = bench\<lparr>n_xfer := n_xfer bench + 12,
                  n_read := n_read bench + 1 + 1,
                  trace := trace bench @
                    [SpiBeginTransaction] @
                    frame_events 0xD0 ADSX_REG_RANGE_SEL
                      (ucast (drop_bit 8 (ADSX_INTREF_ENABLE OR (vRange bench AND 0x0F))))
                      (ucast (ADSX_INTREF_ENABLE OR (vRange bench AND 0x0F))) (miso bench) (n_xfer bench) @
                    frame_events 0 0 0 0 (miso bench) (n_xfer bench + 4) @
                    [SpiEndTransaction] @
                    polls 1 @
                    [SpiBeginTransaction] @
                    frame_events 0 0 0 0 (miso bench) (n_xfer bench + 8) @
                    [SpiEndTransaction]\<rparr>"
  note claim = adsxConfigureBasic_exchanges [of bench s']
  from fh have run: "adsxConfigureBasic bench = Some s'"
    using claim unfolding s'_def by blast
  with claim have "n_exchanges (trace s') = n_exchanges (trace bench) + 3"
    by blast
  then have three: "n_exchanges (trace s') = 3"
    by (simp add: bench_def n_exchanges_def)
  have "trace s' =
        [SpiBeginTransaction,
         DigitalWrite 10 False, SpiTransfer 0xD0 0, SpiTransfer 0x14 1, SpiTransfer 0 2,
         SpiTransfer 1 3, DigitalWrite 10 True,
         DigitalWrite 10 False, SpiTransfer 0 4, SpiTransfer 0 5, SpiTransfer 0 6,
         SpiTransfer 0 7, DigitalWrite 10 True,
         SpiEndTransaction,
         DigitalRead 4 False, DigitalRead 4 True,
         SpiBeginTransaction,
         DigitalWrite 10 False, SpiTransfer 0 8, SpiTransfer 0 9, SpiTransfer 0 10,
         SpiTransfer 0 11, DigitalWrite 10 True,
         SpiEndTransaction]"
    by (simp add: s'_def bench_def frame_events_def polls_def PIN_CS_def PIN_RVS_def HIGH_def
        LOW_def ADSX_REG_RANGE_SEL_def ADSX_INTREF_ENABLE_def ADSX_RANGE_BIPOLAR_2P5X_def)
  with fh run three show ?thesis
    by blast
qed

text \<open>
  C10. Only the low four bits of a range selector count. \<open>adsxRangeMultiplier\<close> gives
  the same pair for \<open>c\<close> and for \<open>c AND 0xF\<close>, so \<open>adsxCodeToVolts\<close> does not see
  the high twelve bits of \<open>vRange\<close> either; \<open>adsxConfigureBasic\<close> run with the high
  twelve bits of \<open>vRange\<close> cleared does exactly what it does with them set; and the
  payload it writes to the range-select register is the low four bits of \<open>vRange\<close>:
  its high byte is 0 and its low byte is below 16.
\<close>

theorem selector_low_nibble:
  "adsxRangeMultiplier c = adsxRangeMultiplier (c AND 0xF) \<and>
   adsxCodeToVolts code (s\<lparr>vRange := vRange s AND 0xF\<rparr>) = adsxCodeToVolts code s \<and>
   adsxConfigureBasic (s\<lparr>vRange := vRange s AND 0xF\<rparr>) =
     map_option (\<lambda>t. t\<lparr>vRange := vRange s AND 0xF\<rparr>) (adsxConfigureBasic s) \<and>
   ADSX_INTREF_ENABLE OR (vRange s AND 0x0F) = take_bit 4 (vRange s) \<and>
   (ucast (drop_bit 8 (ADSX_INTREF_ENABLE OR (vRange s AND 0x0F))) :: u8) = 0 \<and>
   (ucast (ADSX_INTREF_ENABLE OR (vRange s AND 0x0F)) :: u8) = take_bit 4 (ucast (vRange s))"
proof -
  have pl: "ADSX_INTREF_ENABLE OR (vRange s AND 0x0F) = take_bit 4 (vRange s)"
    by (simp add: ADSX_INTREF_ENABLE_def take_bit_eq_mask mask_eq_exp_minus_1)
  have hi: "(ucast (drop_bit 8 (take_bit 4 (vRange s))) :: u8) = 0"
    by (intro bit_word_eqI) (auto simp: bit_simps)
  have lo: "(ucast (take_bit 4 (vRange s)) :: u8) = take_bit 4 (ucast (vRange s))"
    by (intro bit_word_eqI) (auto simp: bit_simps)
  have mul: "adsxRangeMultiplier c = adsxRangeMultiplier (c AND 0xF)"
    by (simp add: adsxRangeMultiplier_nibble)
  have volts: "adsxCodeToVolts code (s\<lparr>vRange := vRange s AND 0xF\<rparr>) = adsxCodeToVolts code s"
    by (simp add: adsxCodeToVolts_def adsxRangeMultiplier_nibble)
  from hi lo have "(ucast (drop_bit 8 (ADSX_INTREF_ENABLE OR (vRange s AND 0x0F))) :: u8) = 0"
    "(ucast (ADSX_INTREF_ENABLE OR (vRange s AND 0x0F)) :: u8) = take_bit 4 (ucast (vRange s))"
    by (simp_all only: pl)
  with mul volts pl adsxConfigureBasic_vRange [of s] show ?thesis
    by blast
qed

section \<open>Capture\<close>

text \<open>
  C2, as claimed for every \<open>N\<close>, fails beyond the capacity of the buffer: on the bench,
  \<open>capture_fast 257\<close> reaches the store to \<open>samples[256]\<close>, which is outside the
  array of \<open>SAMPLE_COUNT = 256\<close> entries.
\<close>

theorem capture_fast_overrun_counterexample:
  "capture_fast 257 bench = Some (Inl (OutOfBounds 256))"
  using capture_fast_overrun [OF bench_ready, of 257] by (simp add: SAMPLE_COUNT_def)

text \<open>
  C2, amended. For every \<open>N\<close> up to \<open>SAMPLE_COUNT\<close>, \<open>capture_fast N\<close> returns exactly
  when its first ready-wait ends after some \<open>k\<close> spins and the \<open>N\<close> ready-waits of the
  loop end after \<open>ks\<close> spins. It then has stored the words received in the \<open>N\<close>
  exchanges of the loop at the positions \<open>0\<close> to \<open>N - 1\<close>, in the order the exchanges
  were issued, and left the entries from \<open>N\<close> on alone. The value returned is the second
  clock reading minus the first (modulo \<open>2 ^ 32\<close>); the first reading comes after the
  start-conversion frame and the first ready-wait, the second after the loop, and the
  events between the two hold exactly the \<open>N\<close> exchanges whose words were stored. The
  call returns whenever the ready pin reads HIGH again and again.
\<close>

theorem capture_fast_burst:
  assumes "unat N \<le> SAMPLE_COUNT"
  shows
    "(capture_fast N s = Some r \<longleftrightarrow>
        (\<exists>k ks. first_high (pin_level s) (n_read s) k \<and>
                spins_ok (pin_level s) (n_read s + k + 1) ks \<and> length ks = unat N \<and>
                r = Inr (clock s (n_clk s + 1) - clock s (n_clk s),
                         s\<lparr>samples := (\<lambda>j. if j < unat N
                                               then rx_word (miso s) (n_xfer s + 4 + 4 * j)
                                               else samples s j),
                           n_xfer := n_xfer s + 4 + 4 * unat N,
                           n_read := n_read s + k + 1 + sum_list ks + unat N,
                           n_clk := n_clk s + 2,
                           trace := trace s @
                             [SpiBeginTransaction] @
                             frame_events 0 0 0 0 (miso s) (n_xfer s) @
                             [SpiEndTransaction] @
                             polls k @
                             [Micros (clock s (n_clk s))] @
                             [SpiBeginTransaction] @
                             burst_events (miso s) (n_xfer s + 4) ks @
                             [SpiEndTransaction] @
                             [Micros (clock s (n_clk s + 1))],
                           touched := touched s @ [0..<unat N]\<rparr>))) \<and>
     (\<forall>ks. length ks = unat N \<longrightarrow>
        n_exchanges ([SpiBeginTransaction] @ burst_events (miso s) (n_xfer s + 4) ks @
                     [SpiEndTransaction]) = unat N \<and>
        words_of (rx_bytes ([SpiBeginTransaction] @ burst_events (miso s) (n_xfer s + 4) ks @
                            [SpiEndTransaction])) =
          map (\<lambda>j. rx_word (miso s) (n_xfer s + 4 + 4 * j)) [0..<unat N]) \<and>
     ((\<forall>p. \<exists>q\<ge>p. pin_level s q) \<longrightarrow> capture_fast N s \<noteq> None)"
proof -
  have window: "n_exchanges ([SpiBeginTransaction] @ burst_events (miso s) (n_xfer s + 4) ks @
                     [SpiEndTransaction]) = unat N \<and>
        words_of (rx_bytes ([SpiBeginTransaction] @ burst_events (miso s) (n_xfer s + 4) ks @
                            [SpiEndTransaction])) =
          map (\<lambda>j. rx_word (miso s) (n_xfer s + 4 + 4 * j)) [0..<unat N]"
    if "length ks = unat N" for ks
  proof -
    have "rx_bytes ([SpiBeginTransaction] @ burst_events (miso s) (n_xfer s + 4) ks @
        [SpiEndTransaction]) = rx_bytes (burst_events (miso s) (n_xfer s + 4) ks)"
      by (simp add: rx_bytes_def)
    then show ?thesis
      using that
      by (simp add: words_of_burst n_exchanges_append n_exchanges_simps n_exchanges_burst
          del: upt_Suc)
  qed
  have "capture_fast N s = Some r \<longleftrightarrow>
     (\<exists>k ks. first_high (pin_level s) (n_read s) k \<and>
         spins_ok (pin_level s) (n_read s + k + 1) ks \<and> length ks = unat N \<and>
         r = Inr (clock s (n_clk s + 1) - clock s (n_clk s), burst k ks s))"
    using assms by (rule capture_fast_Some_iff)
  moreover have "(\<forall>p. \<exists>q\<ge>p. pin_level s q) \<longrightarrow> capture_fast N s \<noteq> None"
    using assms capture_fast_returns by blast
  ultimately show ?thesis
    using window unfolding burst_def by (auto cong: conj_cong)
qed

theorem capture_fast_burst_witness:
  "unat (2 :: u32) \<le> SAMPLE_COUNT \<and> (\<forall>p. \<exists>q\<ge>p. pin_level bench q) \<and>
   (\<exists>s'. capture_fast 2 bench = Some (Inr (1000, s')) \<and>
      samples s' 0 = 0x04050607 \<and> samples s' 1 = 0x08090A0B \<and> samples s' 2 = 0 \<and>
      trace s' =
        [SpiBeginTransaction,
         DigitalWrite 10 False, SpiTransfer 0 0, SpiTransfer 0 1, SpiTransfer 0 2,
         SpiTransfer 0 3, DigitalWrite 10 True,
         SpiEndTransaction,
         DigitalRead 4 False, DigitalRead 4 True,
         Micros 0,
         SpiBeginTransaction,
         DigitalRead 4 False, DigitalRead 4 True,
         DigitalWrite 10 False, SpiTransfer 0 4, SpiTransfer 0 5, SpiTransfer 0 6,
         SpiTransfer 0 7, DigitalWrite 10 True,
         DigitalRead 4 False, DigitalRead 4 True,
         DigitalWrite 10 False, SpiTransfer 0 8, SpiTransfer 0 9, SpiTransfer 0 10,
         SpiTransfer 0 11, DigitalWrite 10 True,
         SpiEndTransaction,
         Micros 1000])"
proof -
  have n: "unat (2 :: u32) \<le> SAMPLE_COUNT"
    by (simp add: SAMPLE_COUNT_def)
  define s' where "s' = bench\<lparr>samples := (\<lambda>j. if j < unat (2 :: u32)
                                               then rx_word (miso bench) (n_xfer bench + 4 + 4 * j)
                                               else samples bench j),
                           n_xfer := n_xfer bench + 4 + 4 * unat (2 :: u32),
                           n_read := n_read bench + 1 + 1 + sum_list [1, 1] + unat (2 :: u32),
                           n_clk := n_clk bench + 2,
                           trace := trace bench @
                             [SpiBeginTransaction] @
                             frame_events 0 0 0 0 (miso bench) (n_xfer bench) @
                             [SpiEndTransaction] @
                             polls 1 @
                             [Micros (clock bench (n_clk bench))] @
                             [SpiBeginTransaction] @
                             burst_events (miso bench) (n_xfer bench + 4) [1, 1] @
                             [SpiEndTransaction] @
                             [Micros (clock bench (n_clk bench + 1))],
                           touched := touched bench @ [0..<unat (2 :: u32)]\<rparr>"
  define r :: "error + u32 \<times> hw" where "r = Inr (clock bench (n_clk bench + 1) - clock bench (n_clk bench), s')"
  have fh: "first_high (pin_level bench) (n_read bench) 1"
    by (simp add: first_high_def bench_def)
  have sp: "spins_ok (pin_level bench) (n_read bench + 1 + 1) [1, 1]"
    by (simp add: first_high_def bench_def)
  have len: "length [1 :: nat, 1] = unat (2 :: u32)"
    by simp
  note r = r_def [unfolded s'_def]
  have "capture_fast 2 bench = Some r"
    by (rule iffD2 [OF capture_fast_burst [OF n, of bench r, THEN conjunct1]],
        rule exI [of _ 1], rule exI [of _ "[1, 1]"], intro conjI, rule fh, rule sp, rule len,
        rule r)
  moreover have "r = Inr (1000, s')"
    by (simp add: r_def bench_def)
  moreover have "samples s' 0 = 0x04050607" "samples s' 1 = 0x08090A0B" "samples s' 2 = 0"
    by (simp_all add: s'_def bench_def rx_word_def pack32_def)
  moreover have "trace s' =
        [SpiBeginTransaction,
         DigitalWrite 10 False, SpiTransfer 0 0, SpiTransfer 0 1, SpiTransfer 0 2,
         SpiTransfer 0 3, DigitalWrite 10 True,
         SpiEndTransaction,
         DigitalRead 4 False, DigitalRead 4 True,
         Micros 0,
         SpiBeginTransaction,
         DigitalRead 4 False, DigitalRead 4 True,
         DigitalWrite 10 False, SpiTransfer 0 4, SpiTransfer 0 5, SpiTransfer 0 6,
         SpiTransfer 0 7, DigitalWrite 10 True,
         DigitalRead 4 False, DigitalRead 4 True,
         DigitalWrite 10 False, SpiTransfer 0 8, SpiTransfer 0 9, SpiTransfer 0 10,
         SpiTransfer 0 11, DigitalWrite 10 True,
         SpiEndTransaction,
         Micros 1000]"
    by (simp add: s'_def bench_def frame_events_def polls_def PIN_CS_def PIN_RVS_def HIGH_def
        LOW_def)
  ultimately show ?thesis
    using n bench_ready by auto
qed

text \<open>
  C9. Under \<open>N \<le> SAMPLE_COUNT\<close>, the accesses to \<open>samples\<close> made by a completed
  \<open>capture_fast N\<close> are the stores at \<open>0, 1, .., N - 1\<close>, those made by
  \<open>decode_samples_in_place N\<close> are a load and a store at each of \<open>0, 1, .., N - 1\<close>,
  all these indices are below \<open>SAMPLE_COUNT\<close>, and neither function ever takes the
  out-of-bounds branch.
\<close>

theorem buffer_accesses_in_bounds:
  assumes "unat N \<le> SAMPLE_COUNT"
  shows
    "(\<forall>r. capture_fast N s = Some r \<longrightarrow>
        (\<exists>dt s'. r = Inr (dt, s') \<and> touched s' = touched s @ [0..<unat N])) \<and>
     (\<exists>s'. decode_samples_in_place N s = Inr s' \<and>
        touched s' = touched s @ concat (map (\<lambda>i. [i, i]) [0..<unat N])) \<and>
     (\<forall>i\<in>set [0..<unat N]. i \<le> unat N - 1 \<and> i < SAMPLE_COUNT) \<and>
     (\<forall>e. capture_fast N s \<noteq> Some (Inl e) \<and> decode_samples_in_place N s \<noteq> Inl e)"
proof -
  have cap: "\<exists>dt s'. r = Inr (dt, s') \<and> touched s' = touched s @ [0..<unat N]"
    if "capture_fast N s = Some r" for r
  proof -
    from that obtain k ks where "length ks = unat N"
      "r = Inr (clock s (n_clk s + 1) - clock s (n_clk s), burst k ks s)"
      using capture_fast_Some_iff [OF assms] by blast
    then show ?thesis
      by (auto simp: burst_def)
  qed
  have dec: "decode_samples_in_place N s = Inr (decoded 0 (unat N) s)"
    using assms by (simp add: decode_samples_in_place_def decode_loop_run)
  have "touched (decoded 0 (unat N) s) = touched s @ concat (map (\<lambda>i. [i, i]) [0..<unat N])"
    by (simp add: decoded_def)
  with dec have d: "\<exists>s'. decode_samples_in_place N s = Inr s' \<and>
        touched s' = touched s @ concat (map (\<lambda>i. [i, i]) [0..<unat N])"
    by blast
  have "\<forall>i\<in>set [0..<unat N]. i \<le> unat N - 1 \<and> i < SAMPLE_COUNT"
    using assms by auto
  moreover have "capture_fast N s \<noteq> Some (Inl e)" for e
    using cap by blast
  moreover have "decode_samples_in_place N s \<noteq> Inl e" for e
    using dec by simp
  ultimately show ?thesis
    using cap d by blast
qed

theorem buffer_accesses_in_bounds_witness:
  "unat (2 :: u32) \<le> SAMPLE_COUNT \<and>
   (\<exists>dt s'. capture_fast 2 bench = Some (Inr (dt, s')) \<and> touched s' = [0, 1]) \<and>
   (\<exists>s'. decode_samples_in_place 2 bench = Inr s' \<and> touched s' = [0, 0, 1, 1])"
proof -
  have n: "unat (2 :: u32) \<le> SAMPLE_COUNT"
    by (simp add: SAMPLE_COUNT_def)
  note claim = buffer_accesses_in_bounds [OF n, of bench]
  have two: "[0..<2] = [0, Suc 0]"
    by (simp add: upt_conv_Cons numeral_2_eq_2 del: upt_Suc)
  have tb: "touched bench = []"
    by (simp add: bench_def)
  from capture_fast_returns [OF n bench_ready] obtain r where "capture_fast 2 bench = Some r"
    by blast
  with claim have "\<exists>dt s'. capture_fast 2 bench = Some (Inr (dt, s')) \<and> touched s' = [0, 1]"
    by (auto simp: two tb)
  moreover from claim have "\<exists>s'. decode_samples_in_place 2 bench = Inr s' \<and> touched s' = [0, 0, 1, 1]"
    by (auto simp: two tb)
  ultimately show ?thesis
    using n by blast
qed

section \<open>Code to volts\<close>

text \<open>
  C1. With \<open>PFS = multiplier * 4.096\<close>, \<open>NFS = - PFS\<close> for a bipolar range and 0
  otherwise, \<open>FSR = PFS - NFS\<close> and \<open>LSB = FSR / 2 ^ ADSX_BITS\<close>, all in binary32
  arithmetic, \<open>adsxCodeToVolts code\<close> is \<open>NFS + code * LSB\<close> for every code up to
  \<open>ADSX_CODE_MASK\<close> and every value of the range selector; code 0 gives \<open>NFS\<close>
  exactly, and the code \<open>ADSX_CODE_MASK\<close> gives \<open>NFS + mask * LSB\<close>, which is
  strictly below \<open>PFS\<close>.
\<close>

theorem adsxCodeToVolts_scale:
  assumes "adsxRangeMultiplier (vRange s) = (mult, bipolar)" and "code \<le> ADSX_CODE_MASK"
  shows "adsxCodeToVolts code s =
           f32_add (NFS mult bipolar) (f32_mul (of_nat (unat code)) (LSB mult bipolar)) \<and>
         adsxCodeToVolts 0 s = NFS mult bipolar \<and>
         adsxCodeToVolts ADSX_CODE_MASK s =
           f32_add (NFS mult bipolar)
             (f32_mul (of_nat (unat ADSX_CODE_MASK)) (LSB mult bipolar)) \<and>
         adsxCodeToVolts ADSX_CODE_MASK s < PFS mult"
proof -
  note form = adsxCodeToVolts_formula [OF assms(1)]
  note tab = range_tables [OF assms(1)]
  from assms(2) have "\<not> code > ADSX_CODE_MASK"
    by (simp add: not_less)
  then have a: "adsxCodeToVolts code s =
      f32_add (NFS mult bipolar) (f32_mul (of_nat (unat code)) (LSB mult bipolar))"
    by (simp add: form code_exact [OF assms(2)])
  have "f32_of_u32 0 = 0"
    by (simp add: f32_of_u32_def f32_round_0)
  then have b: "adsxCodeToVolts 0 s = NFS mult bipolar"
    using tab by (simp add: form ADSX_CODE_MASK_def ADSX_BITS_def)
  have c: "adsxCodeToVolts ADSX_CODE_MASK s =
      f32_add (NFS mult bipolar) (f32_mul (of_nat (unat ADSX_CODE_MASK)) (LSB mult bipolar))"
    by (simp add: form code_exact)
  have d: "adsxCodeToVolts ADSX_CODE_MASK s < PFS mult"
    using tab by (simp add: c mask_unat)
  from a b c d show ?thesis
    by blast
qed

theorem adsxCodeToVolts_scale_witness:
  "adsxRangeMultiplier (vRange bench) = (5 / 2, True) \<and> (131072 :: u32) \<le> ADSX_CODE_MASK \<and>
   PFS (5 / 2) = 10737419 / 1048576 \<and>
   adsxCodeToVolts 0 bench = - (10737419 / 1048576) \<and>
   adsxCodeToVolts 131072 bench = 0 \<and>
   adsxCodeToVolts ADSX_CODE_MASK bench = 10737337 / 1048576 \<and>
   adsxCodeToVolts ADSX_CODE_MASK bench < 10737419 / 1048576"
proof -
  have sel: "adsxRangeMultiplier (vRange bench) = (5 / 2, True)"
    by (simp add: bench_def adsxRangeMultiplier_def ADSX_RANGE_BIPOLAR_2P5X_def
        ADSX_RANGE_BIPOLAR_3X_def)
  have le: "(131072 :: u32) \<le> ADSX_CODE_MASK"
    by (simp add: ADSX_CODE_MASK_def ADSX_BITS_def)
  note claim = adsxCodeToVolts_scale [OF sel le]
  note tab = volts_bipolar_2p5x
  have mid: "f32_add (NFS (5 / 2) True) (f32_mul 131072 (LSB (5 / 2) True)) = 0"
  proof -
    have t: "f32_mul 131072 (LSB (5 / 2) True) = 10737419 / 1048576"
      by (simp add: tab(3) f32_mul_def f32_round_bins f32_eval)
    show ?thesis
      by (simp add: t tab(2) f32_add_def f32_round_0)
  qed
  have u: "unat (131072 :: u32) = 131072"
    by simp
  from claim have c1: "adsxCodeToVolts 131072 bench =
      f32_add (NFS (5 / 2) True) (f32_mul (of_nat (unat (131072 :: u32))) (LSB (5 / 2) True))"
    and c2: "adsxCodeToVolts 0 bench = NFS (5 / 2) True"
    and c3: "adsxCodeToVolts ADSX_CODE_MASK bench =
      f32_add (NFS (5 / 2) True) (f32_mul (of_nat (unat ADSX_CODE_MASK)) (LSB (5 / 2) True))"
    and c4: "adsxCodeToVolts ADSX_CODE_MASK bench < PFS (5 / 2)"
    by blast+
  have "adsxCodeToVolts 131072 bench = 0"
    unfolding c1 u of_nat_numeral by (rule mid)
  moreover have "adsxCodeToVolts 0 bench = - (10737419 / 1048576)"
    unfolding c2 by (rule tab(2))
  moreover have "adsxCodeToVolts ADSX_CODE_MASK bench = 10737337 / 1048576"
    unfolding c3 mask_unat of_nat_numeral by (rule tab(4))
  moreover have "adsxCodeToVolts ADSX_CODE_MASK bench < 10737419 / 1048576"
    using c4 unfolding tab(1) .
  ultimately show ?thesis
    using sel le tab(1) by blast
qed

text \<open>
  C6. Every code above \<open>ADSX_CODE_MASK\<close> converts to the voltage of
  \<open>ADSX_CODE_MASK\<close>, and so does \<open>ADSX_CODE_MASK + 1000\<close>: the input is clamped, and
  the function has no failing branch.
\<close>

theorem adsxCodeToVolts_saturates:
  "(code > ADSX_CODE_MASK \<longrightarrow> adsxCodeToVolts code s = adsxCodeToVolts ADSX_CODE_MASK s) \<and>
   adsxCodeToVolts (ADSX_CODE_MASK + 1000) s = adsxCodeToVolts ADSX_CODE_MASK s"
proof -
  have "ADSX_CODE_MASK + 1000 > ADSX_CODE_MASK"
    by (simp add: ADSX_CODE_MASK_def ADSX_BITS_def)
  then show ?thesis
    by (simp add: adsxCodeToVolts_def)
qed

theorem adsxCodeToVolts_saturates_witness:
  "(0xFFFFFFFF :: u32) > ADSX_CODE_MASK \<and>
   adsxCodeToVolts 0xFFFFFFFF bench = adsxCodeToVolts ADSX_CODE_MASK bench \<and>
   adsxCodeToVolts 0x40000 bench = adsxCodeToVolts 0x3FFFF bench"
proof -
  have a: "(0xFFFFFFFF :: u32) > ADSX_CODE_MASK" and b: "(0x40000 :: u32) > ADSX_CODE_MASK"
    and m: "ADSX_CODE_MASK = 0x3FFFF"
    by (simp_all add: ADSX_CODE_MASK_def ADSX_BITS_def)
  from a adsxCodeToVolts_saturates [of "0xFFFFFFFF" bench]
  have "adsxCodeToVolts 0xFFFFFFFF bench = adsxCodeToVolts ADSX_CODE_MASK bench"
    by blast
  moreover from b adsxCodeToVolts_saturates [of "0x40000" bench]
  have "adsxCodeToVolts 0x40000 bench = adsxCodeToVolts ADSX_CODE_MASK bench"
    by blast
  ultimately show ?thesis
    using a by (simp only: m)
qed

end
